theory Spec2Isabelle
  imports Complex_Main
begin

section \<open>The persistent library store (utils/libraryManager.js)\<close>

text \<open>
  The store keeps the list of book metadata as one JSON value in AsyncStorage under the key
  \<^verbatim>\<open>@HearLearn:library\<close> and the pages of each book as one JSON array in the file
  \<^verbatim>\<open>book-data/<id>.json\<close>. A stored JSON value is absent, present but not parseable, or
  present with its parsed content, an array; \<^verbatim>\<open>JSON.parse (JSON.stringify v)\<close> is taken to
  be \<open>v\<close>.
\<close>

datatype 'a cell = Missing | Malformed | Json 'a

text \<open>
  The calls into AsyncStorage and expo-file-system can throw. Which of them throw during one
  call of a store function is an input of the model.
\<close>

record faults =
  getItem_throws :: bool
  setItem_throws :: bool
  makeDirectory_throws :: bool
  getInfo_throws :: bool
  readAsString_throws :: bool
  writeAsString_throws :: bool
  deleteAsync_throws :: bool

definition no_faults :: faults where
  "no_faults = \<lparr>getItem_throws = False, setItem_throws = False, makeDirectory_throws = False,
     getInfo_throws = False, readAsString_throws = False, writeAsString_throws = False,
     deleteAsync_throws = False\<rparr>"

text \<open>The file system calls made by \<^verbatim>\<open>appendPageData\<close> all return normally.\<close>

definition fs_ok :: "faults \<Rightarrow> bool" where
  "fs_ok f = (\<not> makeDirectory_throws f \<and> \<not> getInfo_throws f \<and> \<not> readAsString_throws f
     \<and> \<not> writeAsString_throws f)"

datatype error = StorageError | FileSystemError

text \<open>
  Free text (page text, annotations) is a JavaScript string: a list of UTF-16 code units.
  Identifiers and status names are written as HOL strings.
\<close>

type_synonym jsstring = "nat list"

text \<open>
  A library entry. A field that the code reads with a default (\<^verbatim>\<open>book.bookmarks || []\<close>,
  \<^verbatim>\<open>book.annotations || {}\<close>, \<^verbatim>\<open>book.listeningTime || 0\<close>) may be undefined: \<open>None\<close>.
\<close>

record book =
  id_arquivo :: string
  nome_original :: string
  total_paginas :: int
  status :: string
  lastPosition :: int
  listeningTime :: "int option"
  completed :: bool
  bookmarks :: "int list option"
  annotations :: "(int \<rightharpoonup> jsstring) option"
  localUri :: "string option"

text \<open>
  The state the library screen and the store work on: the AsyncStorage item, the page files
  (by book identifier), the cached source files (by URI), the module-level object
  \<^verbatim>\<open>processingControl\<close> (the identifiers whose entry is truthy), the React state
  \<^verbatim>\<open>progress\<close>, whose quotient \<^verbatim>\<open>processedCount / total_paginas\<close> is kept as the pair of
  its operands, the React state \<^verbatim>\<open>library\<close>, and the number of calls of
  \<^verbatim>\<open>loadBooksFromStorage\<close> that were started without being awaited and have not run yet.
  The page records are opaque to the store: the type \<open>'p\<close>.
\<close>

record 'p world =
  library_item :: "book list cell"
  book_data :: "string \<Rightarrow> 'p list cell"
  local_files :: "string set"
  processingControl :: "string set"
  progress :: "string \<rightharpoonup> int \<times> int"
  libraryState :: "book list"
  reloadsPending :: nat

definition loadLibrary :: "faults \<Rightarrow> 'p world \<Rightarrow> book list" where
  "loadLibrary f w =
     (if getItem_throws f then []
      else case library_item w of
             Missing \<Rightarrow> []
           | Malformed \<Rightarrow> []
           | Json library \<Rightarrow> library)"

definition saveLibrary :: "faults \<Rightarrow> 'p world \<Rightarrow> book list \<Rightarrow> error + 'p world" where
  "saveLibrary f w library =
     (if setItem_throws f then Inl StorageError
      else Inr (w\<lparr>library_item := Json library\<rparr>))"

definition loadBookPages :: "faults \<Rightarrow> 'p world \<Rightarrow> string \<Rightarrow> 'p list option" where
  "loadBookPages f w bookId =
     (if getInfo_throws f then None
      else case book_data w bookId of
             Missing \<Rightarrow> None
           | Malformed \<Rightarrow> None
           | Json pages \<Rightarrow> if readAsString_throws f then None else Some pages)"

text \<open>
  \<^verbatim>\<open>appendPageData\<close>: the directory is created outside the \<^verbatim>\<open>try\<close>, so that failure
  propagates (\<open>Inl\<close>); a failure inside the \<^verbatim>\<open>try\<close> is caught and the function returns 0.
\<close>

definition appendPageData ::
  "faults \<Rightarrow> 'p world \<Rightarrow> string \<Rightarrow> 'p \<Rightarrow> error + ('p world \<times> nat)" where
  "appendPageData f w bookId newPageData =
     (if makeDirectory_throws f then Inl FileSystemError
      else
        let existingPages = (case loadBookPages f w bookId of None \<Rightarrow> [] | Some pages \<Rightarrow> pages);
            updatedPages = existingPages @ [newPageData]
        in if writeAsString_throws f then Inr (w, 0)
           else Inr (w\<lparr>book_data := (book_data w)(bookId := Json updatedPages)\<rparr>,
                     length updatedPages))"

text \<open>What the remote service returns for an upload, with the URI of the cached copy.\<close>

record book_info =
  bi_id_arquivo :: string
  bi_nome_original :: string
  bi_total_paginas :: int
  bi_localUri :: "string option"

definition saveBook :: "faults \<Rightarrow> 'p world \<Rightarrow> book_info \<Rightarrow> error + 'p world" where
  "saveBook f w metadata =
     (let library = loadLibrary f w in
      if \<exists>b \<in> set library. id_arquivo b = bi_id_arquivo metadata then Inr w
      else
        let newBook = \<lparr>id_arquivo = bi_id_arquivo metadata,
                       nome_original = bi_nome_original metadata,
                       total_paginas = bi_total_paginas metadata,
                       status = ''processing'', lastPosition = 0, listeningTime = Some 0,
                       completed = False, bookmarks = Some [], annotations = Some Map.empty,
                       localUri = bi_localUri metadata\<rparr>
        in case saveLibrary f w (library @ [newBook]) of
             Inl e \<Rightarrow> Inr w
           | Inr w1 \<Rightarrow>
               if makeDirectory_throws f \<or> writeAsString_throws f then Inr w1
               else Inr (w1\<lparr>book_data := (book_data w1)(bi_id_arquivo metadata := Json [])\<rparr>))"

definition updateBookStatus :: "faults \<Rightarrow> 'p world \<Rightarrow> string \<Rightarrow> string \<Rightarrow> error + 'p world" where
  "updateBookStatus f w bookId st =
     (let library = loadLibrary f w;
          newLibrary = map (\<lambda>book. if id_arquivo book = bookId then book\<lparr>status := st\<rparr> else book)
                         library
      in case saveLibrary f w newLibrary of
           Inl e \<Rightarrow> Inr w
         | Inr w1 \<Rightarrow> Inr w1)"

definition removeBook :: "faults \<Rightarrow> 'p world \<Rightarrow> string \<Rightarrow> error + 'p world" where
  "removeBook f w bookId =
     (let library = loadLibrary f w;
          bookToRemove = find (\<lambda>book. id_arquivo book = bookId) library;
          newLibrary = filter (\<lambda>book. id_arquivo book \<noteq> bookId) library
      in case saveLibrary f w newLibrary of
           Inl e \<Rightarrow> Inr w
         | Inr w1 \<Rightarrow>
             (if deleteAsync_throws f then Inr w1
              else
                let w2 = w1\<lparr>book_data := (book_data w1)(bookId := Missing)\<rparr>
                in (case bookToRemove of
                      None \<Rightarrow> Inr w2
                    | Some b \<Rightarrow>
                        (case localUri b of
                           None \<Rightarrow> Inr w2
                         | Some uri \<Rightarrow> Inr (w2\<lparr>local_files := local_files w2 - {uri}\<rparr>)))))"

definition updateBookState :: "faults \<Rightarrow> 'p world \<Rightarrow> string \<Rightarrow> int \<Rightarrow> int \<Rightarrow> error + 'p world" where
  "updateBookState f w bookId pageIndex timeIncrement =
     (let library = loadLibrary f w;
          newLibrary = map (\<lambda>book.
              if id_arquivo book = bookId then
                let isCompleted = (pageIndex \<ge> total_paginas book - 1)
                in book\<lparr>lastPosition := pageIndex,
                        listeningTime :=
                          Some ((case listeningTime book of None \<Rightarrow> 0 | Some t \<Rightarrow> t) + timeIncrement),
                        completed := (completed book \<or> isCompleted)\<rparr>
              else book) library
      in case saveLibrary f w newLibrary of
           Inl e \<Rightarrow> Inr w
         | Inr w1 \<Rightarrow> Inr w1)"

definition addBookmark :: "faults \<Rightarrow> 'p world \<Rightarrow> string \<Rightarrow> int \<Rightarrow> error + 'p world" where
  "addBookmark f w bookId pageIndex =
     (let library = loadLibrary f w;
          newLibrary = map (\<lambda>book.
              if id_arquivo book = bookId then
                let bms = (case bookmarks book of None \<Rightarrow> [] | Some l \<Rightarrow> l)
                in if pageIndex \<notin> set bms then book\<lparr>bookmarks := Some (sort (bms @ [pageIndex]))\<rparr>
                   else book
              else book) library
      in case saveLibrary f w newLibrary of
           Inl e \<Rightarrow> Inr w
         | Inr w1 \<Rightarrow> Inr w1)"

definition removeBookmark :: "faults \<Rightarrow> 'p world \<Rightarrow> string \<Rightarrow> int \<Rightarrow> error + 'p world" where
  "removeBookmark f w bookId pageIndex =
     (let library = loadLibrary f w;
          newLibrary = map (\<lambda>book.
              if id_arquivo book = bookId then
                let bms = (case bookmarks book of None \<Rightarrow> [] | Some l \<Rightarrow> l)
                in book\<lparr>bookmarks := Some (filter (\<lambda>p. p \<noteq> pageIndex) bms)\<rparr>
              else book) library
      in case saveLibrary f w newLibrary of
           Inl e \<Rightarrow> Inr w
         | Inr w1 \<Rightarrow> Inr w1)"

definition saveAnnotation ::
  "faults \<Rightarrow> 'p world \<Rightarrow> string \<Rightarrow> int \<Rightarrow> jsstring \<Rightarrow> error + 'p world" where
  "saveAnnotation f w bookId pageIndex text =
     (let library = loadLibrary f w;
          newLibrary = map (\<lambda>book.
              if id_arquivo book = bookId then
                let anns = (case annotations book of None \<Rightarrow> Map.empty | Some m \<Rightarrow> m)
                in book\<lparr>annotations := Some (anns(pageIndex \<mapsto> text))\<rparr>
              else book) library
      in case saveLibrary f w newLibrary of
           Inl e \<Rightarrow> Inr w
         | Inr w1 \<Rightarrow> Inr w1)"

definition removeAnnotation :: "faults \<Rightarrow> 'p world \<Rightarrow> string \<Rightarrow> int \<Rightarrow> error + 'p world" where
  "removeAnnotation f w bookId pageIndex =
     (let library = loadLibrary f w;
          newLibrary = map (\<lambda>book.
              if id_arquivo book = bookId then
                let anns = (case annotations book of None \<Rightarrow> Map.empty | Some m \<Rightarrow> m)
                in book\<lparr>annotations := Some (anns(pageIndex := None))\<rparr>
              else book) library
      in case saveLibrary f w newLibrary of
           Inl e \<Rightarrow> Inr w
         | Inr w1 \<Rightarrow> Inr w1)"

text \<open>A sequence of \<^verbatim>\<open>appendPageData\<close> calls for one book, each awaited before the next; the
  results of the calls are collected in call order.\<close>

fun appendPages ::
  "'p world \<Rightarrow> string \<Rightarrow> (faults \<times> 'p) list \<Rightarrow> 'p world \<times> (error + nat) list" where
  "appendPages w bookId [] = (w, [])"
| "appendPages w bookId ((f, p) # calls) =
     (case appendPageData f w bookId p of
        Inl e \<Rightarrow> (let (w2, rs) = appendPages w bookId calls in (w2, Inl e # rs))
      | Inr (w1, n) \<Rightarrow> (let (w2, rs) = appendPages w1 bookId calls in (w2, Inr n # rs)))"


text \<open>The sum of the six per-book mutators of the metadata, for statements about all of them.\<close>

datatype mutation =
  UpdateBookStatus string
| UpdateBookState int int
| AddBookmark int
| RemoveBookmark int
| SaveAnnotation int jsstring
| RemoveAnnotation int

fun mutate :: "faults \<Rightarrow> 'p world \<Rightarrow> string \<Rightarrow> mutation \<Rightarrow> error + 'p world" where
  "mutate f w bookId (UpdateBookStatus st) = updateBookStatus f w bookId st"
| "mutate f w bookId (UpdateBookState pageIndex timeIncrement) =
     updateBookState f w bookId pageIndex timeIncrement"
| "mutate f w bookId (AddBookmark pageIndex) = addBookmark f w bookId pageIndex"
| "mutate f w bookId (RemoveBookmark pageIndex) = removeBookmark f w bookId pageIndex"
| "mutate f w bookId (SaveAnnotation pageIndex text) = saveAnnotation f w bookId pageIndex text"
| "mutate f w bookId (RemoveAnnotation pageIndex) = removeAnnotation f w bookId pageIndex"

section \<open>JavaScript strings: white space, trim, split, match\<close>

text \<open>The code units matched by \<^verbatim>\<open>\s\<close> and stripped by \<^verbatim>\<open>trim\<close>: WhiteSpace and
  LineTerminator of ECMAScript.\<close>

definition isWhiteSpace :: "nat \<Rightarrow> bool" where
  "isWhiteSpace u =
     (u \<in> {9, 10, 11, 12, 13, 32, 160, 5760, 8232, 8233, 8239, 8287, 12288, 65279}
      \<or> (8192 \<le> u \<and> u \<le> 8202))"

definition trim :: "jsstring \<Rightarrow> jsstring" where
  "trim s = rev (dropWhile isWhiteSpace (rev (dropWhile isWhiteSpace s)))"

text \<open>\<^verbatim>\<open>s.split(/\s+/)\<close>: the pieces between the maximal runs of white space; a run at the
  start or at the end of the string gives an empty first or last piece.\<close>

function splitWs :: "jsstring \<Rightarrow> jsstring list" where
  "splitWs [] = [Nil]"
| "splitWs (c # cs) =
     (if isWhiteSpace c then [] # splitWs (dropWhile isWhiteSpace cs)
      else (case splitWs cs of
              [] \<Rightarrow> [c # Nil]
            | w # ws \<Rightarrow> (c # w) # ws))"
  by pat_completeness auto
termination
  by (relation "measure length") (auto simp: length_dropWhile_le le_imp_less_Suc)

text \<open>\<^verbatim>\<open>(s.match(/\s+/g) || []).length\<close>: the number of maximal runs of white space.\<close>

function countMatches :: "jsstring \<Rightarrow> nat" where
  "countMatches [] = 0"
| "countMatches (c # cs) =
     (if isWhiteSpace c then Suc (countMatches (dropWhile isWhiteSpace cs))
      else countMatches cs)"
  by pat_completeness auto
termination
  by (relation "measure length") (auto simp: length_dropWhile_le le_imp_less_Suc)

text \<open>\<^verbatim>\<open>words.join(' ')\<close>.\<close>

fun joinSpace :: "jsstring list \<Rightarrow> jsstring" where
  "joinSpace [] = []"
| "joinSpace [w] = w"
| "joinSpace (w # v # ws) = w @ [32] @ joinSpace (v # ws)"

section \<open>Annotations in the player (component PlayerScreen)\<close>

text \<open>\<^verbatim>\<open>loadUpdatedBookData\<close> followed by \<^verbatim>\<open>annotations[pageIndex]\<close>: the annotation the
  player shows for a page of a book.\<close>

definition annotationOf :: "'p world \<Rightarrow> string \<Rightarrow> int \<Rightarrow> jsstring option" where
  "annotationOf w bookId pageIndex =
     (case find (\<lambda>b. id_arquivo b = bookId) (loadLibrary no_faults w) of
        None \<Rightarrow> None
      | Some currentBook \<Rightarrow>
          (case annotations currentBook of None \<Rightarrow> None | Some m \<Rightarrow> m pageIndex))"

definition handleSaveAnnotation ::
  "faults \<Rightarrow> 'p world \<Rightarrow> string \<Rightarrow> int \<Rightarrow> jsstring \<Rightarrow> error + 'p world" where
  "handleSaveAnnotation f w bookId currentPageIndex currentAnnotation =
     (if trim currentAnnotation \<noteq> [] then
        saveAnnotation f w bookId currentPageIndex currentAnnotation
      else removeAnnotation f w bookId currentPageIndex)"

text \<open>No book of the stored library holds an empty string under a page index.\<close>

definition noEmptyIn :: "book \<Rightarrow> bool" where
  "noEmptyIn b = (case annotations b of None \<Rightarrow> True | Some m \<Rightarrow> [] \<notin> ran m)"

definition noEmptyAnnotation :: "'p world \<Rightarrow> bool" where
  "noEmptyAnnotation w = (\<forall>b \<in> set (loadLibrary no_faults w). noEmptyIn b)"

section \<open>The ingestion loop (screens/LibraryScreen.js)\<close>

text \<open>
  What the request for one page gives: a response with status \<^verbatim>\<open>sucesso\<close> and the page
  data, a response without that status, or a rejected request (network error, timeout).
\<close>

datatype 'p response = Sucesso 'p | OtherStatus | RequestFailed

text \<open>
  \<^verbatim>\<open>processBookPages\<close> is an asynchronous function; between two suspensions it runs without
  interruption. The points where a loop can be found suspended: before the pages on disk are
  counted (\<open>Resuming\<close>), before \<^verbatim>\<open>processPage(P)\<close> runs (\<open>CycleStart P\<close>: at the start, and
  during the 10 ms timeout between two pages), while the request for page \<open>P\<close> is pending
  (\<open>Fetching P\<close>), and after its last statement (\<open>Finished\<close>). The calls of the store are taken
  as atomic. Where the loop calls \<^verbatim>\<open>loadBooksFromStorage\<close> without awaiting it, the call is
  counted in \<open>reloadsPending\<close> and runs later, as a step of its own. The alert for a first page
  in another language changes none of the state and is left out.
\<close>

datatype pc = Resuming | CycleStart int | Fetching int | Finished

definition processBookPages :: "'p world \<Rightarrow> book \<Rightarrow> 'p world \<times> pc option" where
  "processBookPages w bookInfo =
     (if id_arquivo bookInfo \<in> processingControl w then (w, None)
      else (w\<lparr>processingControl := insert (id_arquivo bookInfo) (processingControl w)\<rparr>,
            Some Resuming))"

definition startPage :: "faults \<Rightarrow> 'p world \<Rightarrow> book \<Rightarrow> int" where
  "startPage f w bookInfo =
     int (case loadBookPages f w (id_arquivo bookInfo) of
            None \<Rightarrow> 0
          | Some existingPages \<Rightarrow> length existingPages) + 1"

text \<open>\<^verbatim>\<open>processPage\<close> up to the request for the page.\<close>

definition processPage_request ::
  "faults \<Rightarrow> 'p world \<Rightarrow> book \<Rightarrow> int \<Rightarrow> error + ('p world \<times> pc)" where
  "processPage_request f w bookInfo pageNumber =
     (if pageNumber > total_paginas bookInfo then
        (case updateBookStatus f w (id_arquivo bookInfo) ''ready'' of
           Inl e \<Rightarrow> Inl e
         | Inr w1 \<Rightarrow>
             Inr (w1\<lparr>processingControl := processingControl w1 - {id_arquivo bookInfo},
                      reloadsPending := Suc (reloadsPending w1)\<rparr>,
                  Finished))
      else if \<not> (\<exists>b \<in> set (loadLibrary f w). id_arquivo b = id_arquivo bookInfo) then
        Inr (w\<lparr>processingControl := processingControl w - {id_arquivo bookInfo}\<rparr>, Finished)
      else Inr (w, Fetching pageNumber))"

text \<open>The \<^verbatim>\<open>catch\<close> block of \<^verbatim>\<open>processPage\<close>.\<close>

definition processPage_catch :: "faults \<Rightarrow> 'p world \<Rightarrow> book \<Rightarrow> error + ('p world \<times> pc)" where
  "processPage_catch f w bookInfo =
     (case updateBookStatus f w (id_arquivo bookInfo) ''failed'' of
        Inl e \<Rightarrow> Inl e
      | Inr w1 \<Rightarrow>
          Inr (w1\<lparr>processingControl := processingControl w1 - {id_arquivo bookInfo},
                   reloadsPending := Suc (reloadsPending w1)\<rparr>,
               Finished))"

text \<open>\<^verbatim>\<open>processPage\<close> from the moment the request is settled.\<close>

definition processPage_response ::
  "faults \<Rightarrow> 'p world \<Rightarrow> book \<Rightarrow> int \<Rightarrow> 'p response \<Rightarrow> error + ('p world \<times> pc)" where
  "processPage_response f w bookInfo pageNumber r =
     (case r of
        Sucesso pageData \<Rightarrow>
          (case appendPageData f w (id_arquivo bookInfo) pageData of
             Inl e \<Rightarrow> processPage_catch f w bookInfo
           | Inr (w1, processedCount) \<Rightarrow>
               Inr (w1\<lparr>progress := (progress w1)(id_arquivo bookInfo \<mapsto>
                          (int processedCount, total_paginas bookInfo))\<rparr>,
                    CycleStart (pageNumber + 1)))
      | OtherStatus \<Rightarrow> processPage_catch f w bookInfo
      | RequestFailed \<Rightarrow> processPage_catch f w bookInfo)"

text \<open>The handler of the button that removes a book.\<close>

definition handleRemoveBook :: "faults \<Rightarrow> 'p world \<Rightarrow> string \<Rightarrow> error + 'p world" where
  "handleRemoveBook f w bookId =
     (case removeBook f (w\<lparr>processingControl := processingControl w - {bookId}\<rparr>) bookId of
        Inl e \<Rightarrow> Inl e
      | Inr w1 \<Rightarrow>
          Inr (w1\<lparr>progress := (progress w1)(bookId := None),
                   reloadsPending := Suc (reloadsPending w1)\<rparr>))"

text \<open>
  \<^verbatim>\<open>loadBooksFromStorage\<close>: the library is read and put into the React state; then, book
  after book, the pages on disk are counted for the progress, and a book still processing whose
  pages are all there is marked ready.
\<close>

fun reconcile ::
  "faults \<Rightarrow> book list \<Rightarrow> 'p world \<Rightarrow> (string \<rightharpoonup> int \<times> int)
     \<Rightarrow> error + ('p world \<times> (string \<rightharpoonup> int \<times> int))" where
  "reconcile f [] w initialProgress = Inr (w, initialProgress)"
| "reconcile f (book # books) w initialProgress =
     (if status book = ''processing'' \<or> status book = ''ready'' then
        let pageCount = (case loadBookPages f w (id_arquivo book) of
                           None \<Rightarrow> 0
                         | Some pages \<Rightarrow> length pages);
            initialProgress1 =
              (if total_paginas book > 0 then
                 initialProgress(id_arquivo book \<mapsto> (int pageCount, total_paginas book))
               else initialProgress)
        in if status book = ''processing'' \<and> int pageCount = total_paginas book then
             (case updateBookStatus f w (id_arquivo book) ''ready'' of
                Inl e \<Rightarrow> Inl e
              | Inr w1 \<Rightarrow> reconcile f books w1 initialProgress1)
           else reconcile f books w initialProgress1
      else reconcile f books w initialProgress)"

definition loadBooksFromStorage :: "faults \<Rightarrow> 'p world \<Rightarrow> error + 'p world" where
  "loadBooksFromStorage f w =
     (let books = loadLibrary f w in
      case reconcile f books (w\<lparr>libraryState := books\<rparr>) Map.empty of
        Inl e \<Rightarrow> Inl e
      | Inr (w1, initialProgress) \<Rightarrow> Inr (w1\<lparr>progress := initialProgress\<rparr>))"

text \<open>
  The effect that starts ingestion: it runs when the React state \<^verbatim>\<open>library\<close> has changed,
  and calls \<^verbatim>\<open>processBookPages\<close> for the first book of that state that is processing, if the
  marker of this book is not set.
\<close>

definition startIngestion :: "'p world \<Rightarrow> 'p world \<times> (book \<times> pc) option" where
  "startIngestion w =
     (case find (\<lambda>book. status book = ''processing'') (libraryState w) of
        None \<Rightarrow> (w, None)
      | Some pendingBook \<Rightarrow>
          if id_arquivo pendingBook \<notin> processingControl w then
            (case processBookPages w pendingBook of
               (w1, None) \<Rightarrow> (w1, None)
             | (w1, Some pc1) \<Rightarrow> (w1, Some (pendingBook, pc1)))
          else (w, None))"

text \<open>
  One loop running alone from \<^verbatim>\<open>processPage(P)\<close> to its end. The faults of each step and
  the answer of the service to each page are given; the result is the final state with the
  page numbers requested, in order.
\<close>

function processPages ::
  "(pc \<Rightarrow> faults) \<Rightarrow> (int \<Rightarrow> 'p response) \<Rightarrow> book \<Rightarrow> 'p world \<Rightarrow> int
     \<Rightarrow> error + ('p world \<times> int list)" where
  "processPages env service bookInfo w pageNumber =
     (case processPage_request (env (CycleStart pageNumber)) w bookInfo pageNumber of
        Inl e \<Rightarrow> Inl e
      | Inr (w1, pc1) \<Rightarrow>
          (case pc1 of
             Fetching n \<Rightarrow>
               (case processPage_response (env (Fetching n)) w1 bookInfo n (service n) of
                  Inl e \<Rightarrow> Inl e
                | Inr (w2, pc2) \<Rightarrow>
                    (case pc2 of
                       CycleStart m \<Rightarrow>
                         (case processPages env service bookInfo w2 m of
                            Inl e \<Rightarrow> Inl e
                          | Inr (w3, requested) \<Rightarrow> Inr (w3, n # requested))
                     | Resuming \<Rightarrow> Inr (w2, [n])
                     | Fetching k \<Rightarrow> Inr (w2, [n])
                     | Finished \<Rightarrow> Inr (w2, [n])))
           | Resuming \<Rightarrow> Inr (w1, [])
           | CycleStart k \<Rightarrow> Inr (w1, [])
           | Finished \<Rightarrow> Inr (w1, [])))"
  by pat_completeness auto
termination
proof (relation "measure (\<lambda>(env, service, bookInfo, w, pageNumber).
        nat (total_paginas bookInfo + 1 - pageNumber))", goal_cases)
  case 1
  show ?case by simp
next
  case (2 env service bookInfo w pageNumber x1 w1 pc1 n x2 w2 pc2 m)
  from 2(1,2,3) have "n = pageNumber \<and> pageNumber \<le> total_paginas bookInfo"
    by (auto simp: processPage_request_def split: if_splits sum.splits)
  moreover from 2(4,5,6) have "m = n + 1"
    by (auto simp: processPage_response_def processPage_catch_def
        split: response.splits sum.splits prod.splits)
  ultimately show ?case by simp
qed

declare processPages.simps [simp del]

text \<open>The whole call \<^verbatim>\<open>processBookPages(bookInfo)\<close>, running alone.\<close>

definition ingest ::
  "(pc \<Rightarrow> faults) \<Rightarrow> (int \<Rightarrow> 'p response) \<Rightarrow> 'p world \<Rightarrow> book
     \<Rightarrow> error + ('p world \<times> int list)" where
  "ingest env service w bookInfo =
     (case processBookPages w bookInfo of
        (w1, None) \<Rightarrow> Inr (w1, [])
      | (w1, Some pc1) \<Rightarrow>
          processPages env service bookInfo w1 (startPage (env Resuming) w1 bookInfo))"

subsection \<open>Several loops, the trigger and the removal\<close>

text \<open>
  The loops started so far with their points of suspension, and the events that interleave:
  \<^verbatim>\<open>processBookPages\<close> is called for a book, a suspended loop runs to its next suspension, the
  user removes a book, the screen gains focus and starts \<^verbatim>\<open>loadBooksFromStorage\<close>, a call of
  \<^verbatim>\<open>loadBooksFromStorage\<close> that was started runs, the effect that starts ingestion runs.
\<close>

record 'p system =
  world_of :: "'p world"
  loops :: "(book \<times> pc) list"

datatype 'p event =
  Trigger book
| Advance nat faults "'p response"
| Remove faults string
| Focus
| Reload faults
| Effect

fun advance ::
  "faults \<Rightarrow> 'p response \<Rightarrow> book \<Rightarrow> 'p world \<Rightarrow> pc \<Rightarrow> error + ('p world \<times> pc)" where
  "advance f r bookInfo w Resuming = Inr (w, CycleStart (startPage f w bookInfo))"
| "advance f r bookInfo w (CycleStart pageNumber) = processPage_request f w bookInfo pageNumber"
| "advance f r bookInfo w (Fetching pageNumber) = processPage_response f w bookInfo pageNumber r"
| "advance f r bookInfo w Finished = Inr (w, Finished)"

fun fire :: "'p system \<Rightarrow> 'p event \<Rightarrow> 'p system" where
  "fire s (Trigger bookInfo) =
     (case processBookPages (world_of s) bookInfo of
        (w, None) \<Rightarrow> s\<lparr>world_of := w\<rparr>
      | (w, Some pc1) \<Rightarrow> s\<lparr>world_of := w, loops := loops s @ [(bookInfo, pc1)]\<rparr>)"
| "fire s (Advance i f r) =
     (if i < length (loops s) then
        (case advance f r (fst (loops s ! i)) (world_of s) (snd (loops s ! i)) of
           Inl e \<Rightarrow> s\<lparr>loops := (loops s)[i := (fst (loops s ! i), Finished)]\<rparr>
         | Inr (w, pc1) \<Rightarrow> s\<lparr>world_of := w, loops := (loops s)[i := (fst (loops s ! i), pc1)]\<rparr>)
      else s)"
| "fire s (Remove f bookId) =
     (case handleRemoveBook f (world_of s) bookId of
        Inl e \<Rightarrow> s
      | Inr w \<Rightarrow> s\<lparr>world_of := w\<rparr>)"
| "fire s Focus =
     s\<lparr>world_of := (world_of s)\<lparr>reloadsPending := Suc (reloadsPending (world_of s))\<rparr>\<rparr>"
| "fire s (Reload f) =
     (if reloadsPending (world_of s) = 0 then s
      else
        (case loadBooksFromStorage f (world_of s) of
           Inl e \<Rightarrow> s\<lparr>world_of := (world_of s)\<lparr>reloadsPending := reloadsPending (world_of s) - 1\<rparr>\<rparr>
         | Inr w \<Rightarrow> s\<lparr>world_of := w\<lparr>reloadsPending := reloadsPending w - 1\<rparr>\<rparr>))"
| "fire s Effect =
     (case startIngestion (world_of s) of
        (w, None) \<Rightarrow> s\<lparr>world_of := w\<rparr>
      | (w, Some l) \<Rightarrow> s\<lparr>world_of := w, loops := loops s @ [l]\<rparr>)"

definition activeLoops :: "'p system \<Rightarrow> string \<Rightarrow> (book \<times> pc) list" where
  "activeLoops s bookId =
     filter (\<lambda>l. id_arquivo (fst l) = bookId \<and> snd l \<noteq> Finished) (loops s)"

fun isRemove :: "'p event \<Rightarrow> bool" where
  "isRemove (Remove f bookId) = True"
| "isRemove e = False"


text \<open>Single flight: the book of a loop has at most one loop that has not finished, and the
  marker of a book with such a loop is set.\<close>

definition singleFlight :: "'p system \<Rightarrow> bool" where
  "singleFlight s =
     ((\<forall>l \<in> set (loops s). length (activeLoops s (id_arquivo (fst l))) \<le> 1)
      \<and> (\<forall>l \<in> set (loops s). snd l \<noteq> Finished \<longrightarrow>
            id_arquivo (fst l) \<in> processingControl (world_of s)))"

section \<open>Page changes in the player (component PlayerScreen)\<close>

text \<open>
  The arguments of \<^verbatim>\<open>safeGoTo\<close> and \<^verbatim>\<open>throttledGoTo\<close>, and the state they read and write:
  the refs, the React state, and the pending timeouts with the time at which each is due.
  Times are in milliseconds.
\<close>

record goto_args =
  deltaOrIndex :: int
  absolute :: bool
  continueSpeech :: bool

record player =
  navLock :: bool
  lastPageChangeAt :: int
  pendingNavTimeout :: "(int \<times> goto_args) option"
  lockTimeouts :: "int list"
  isPageLoading :: bool
  isPlaying :: bool
  timerRunning :: bool
  speaking :: bool
  showMagnifier :: bool
  snapshotUri :: "string option"
  currentWordIndex :: int
  currentPageIndex :: int

definition MIN_PAGE_CHANGE_INTERVAL :: int where
  "MIN_PAGE_CHANGE_INTERVAL = 900"

definition safeGoTo :: "player \<Rightarrow> int \<Rightarrow> goto_args \<Rightarrow> player" where
  "safeGoTo p now args =
     (if navLock p then p
      else p\<lparr>navLock := True,
             showMagnifier := False,
             snapshotUri := None,
             isPageLoading := True,
             speaking := False,
             isPlaying := (if continueSpeech args then isPlaying p else False),
             timerRunning := (if continueSpeech args then timerRunning p else False),
             currentWordIndex := - 1,
             currentPageIndex :=
               (if absolute args then deltaOrIndex args
                else currentPageIndex p + deltaOrIndex args),
             lockTimeouts := lockTimeouts p @ [now + MIN_PAGE_CHANGE_INTERVAL]\<rparr>)"

definition schedule :: "player \<Rightarrow> int \<Rightarrow> int \<Rightarrow> goto_args \<Rightarrow> player" where
  "schedule p now delayMs args = p\<lparr>pendingNavTimeout := Some (now + max 0 delayMs, args)\<rparr>"

definition throttledGoTo :: "player \<Rightarrow> int \<Rightarrow> goto_args \<Rightarrow> player" where
  "throttledGoTo p now args =
     (let elapsed = now - lastPageChangeAt p in
      if isPageLoading p \<or> navLock p then schedule p now 150 args
      else if elapsed \<ge> MIN_PAGE_CHANGE_INTERVAL then
        safeGoTo (p\<lparr>lastPageChangeAt := now\<rparr>) now args
      else schedule p now (MIN_PAGE_CHANGE_INTERVAL - elapsed) args)"

text \<open>
  What happens to the player: a page change is requested at a time, the pending navigation
  timeout or the oldest lock timeout runs at a time (not before it is due), the page that was
  loading has been laid out.
\<close>

datatype nav_event =
  Request int goto_args
| PendingTimeout int
| LockTimeout int
| PageLoaded

fun nav_step :: "player \<Rightarrow> nav_event \<Rightarrow> player" where
  "nav_step p (Request now args) = throttledGoTo p now args"
| "nav_step p (PendingTimeout now) =
     (case pendingNavTimeout p of
        None \<Rightarrow> p
      | Some (due, args) \<Rightarrow>
          if now < due then p
          else safeGoTo (p\<lparr>pendingNavTimeout := None, lastPageChangeAt := now\<rparr>) now args)"
| "nav_step p (LockTimeout now) =
     (case lockTimeouts p of
        [] \<Rightarrow> p
      | due # rest \<Rightarrow>
          if now < due then p else p\<lparr>navLock := False, lockTimeouts := rest\<rparr>)"
| "nav_step p PageLoaded = p\<lparr>isPageLoading := False\<rparr>"

fun isLockTimeout :: "nav_event \<Rightarrow> bool" where
  "isLockTimeout (LockTimeout now) = True"
| "isLockTimeout e = False"

section \<open>Speech and the highlighted word (component PlayerScreen)\<close>

record utterance =
  textSegment :: jsstring
  speechStartIndex :: int

text \<open>\<^verbatim>\<open>startSpeech\<close>: \<open>None\<close> when nothing is spoken.\<close>

definition startSpeech :: "jsstring \<Rightarrow> int \<Rightarrow> utterance option" where
  "startSpeech textToSpeak fromWordIndex =
     (if textToSpeak = [] \<or> trim textToSpeak = [] then None
      else
        let words = splitWs textToSpeak;
            startIndex = (if fromWordIndex \<ge> 0 then fromWordIndex else 0);
            segment = joinSpace (drop (nat startIndex) words)
        in if segment = [] then None
           else Some \<lparr>textSegment = segment, speechStartIndex = startIndex\<rparr>)"

text \<open>\<^verbatim>\<open>onBoundary\<close>: the new value of the word index, \<open>None\<close> when the event carries no
  \<^verbatim>\<open>charIndex\<close> and the index is left as it is.\<close>

definition onBoundary :: "utterance \<Rightarrow> int option \<Rightarrow> int option" where
  "onBoundary u charIndex =
     (case charIndex of
        None \<Rightarrow> None
      | Some i \<Rightarrow>
          let spokenText = take (nat i) (textSegment u);
              currentLocalWordIndex = countMatches spokenText
          in Some (speechStartIndex u + int currentLocalWordIndex))"

text \<open>
  The specification's count, in its own words: the white-space-delimited tokens of the spoken
  segment that are fully consumed before an offset. The text before the offset splits into
  tokens; all of them but the last are complete, the last is the one being spoken.
\<close>

definition tokensConsumed :: "jsstring \<Rightarrow> nat \<Rightarrow> nat" where
  "tokensConsumed segment offset = length (splitWs (take offset segment)) - 1"

section \<open>Fitting the page into its container (component PlayerScreen)\<close>

text \<open>
  A JavaScript number is an IEEE 754 double: a finite value, one of the two infinities, or
  NaN. The two zeros are one value here: they differ only as divisors and under
  \<^verbatim>\<open>Object.is\<close>, and no divisor of the effect below is zero.
\<close>

datatype number = Finite real | PlusInfinity | MinusInfinity | NaN

text \<open>
  An arithmetic operation gives the exact result rounded to the nearest double, ties to even.
  \<open>nearest\<close> is this rounding with the exponent unbounded above: a number in the binade of
  exponent \<open>e\<close> is rounded to a multiple of \<open>2 powr (e - 52)\<close>, which leaves 53 significant
  bits, and below the smallest normal number \<open>2 powr (- 1022)\<close> to a multiple of
  \<open>2 powr (- 1074)\<close>, the spacing of the subnormal numbers (gradual underflow, down to zero).
  \<open>double\<close> adds the overflow: a result that rounds to \<open>2 ^ 1024\<close> or beyond in magnitude is
  the infinity of its sign.
\<close>

definition roundTiesToEven :: "real \<Rightarrow> int" where
  "roundTiesToEven y =
     (let f = \<lfloor>y\<rfloor> in
      if y - of_int f < 1 / 2 then f
      else if 1 / 2 < y - of_int f then f + 1
      else if even f then f else f + 1)"

definition binade :: "real \<Rightarrow> int" where
  "binade x = \<lfloor>log 2 \<bar>x\<bar>\<rfloor>"

definition quantum :: "real \<Rightarrow> int" where
  "quantum x = max (binade x) (- 1022) - 52"

definition nearest :: "real \<Rightarrow> real" where
  "nearest x =
     (if x = 0 then 0
      else of_int (roundTiesToEven (x / 2 powr of_int (quantum x))) * 2 powr of_int (quantum x))"

definition double :: "real \<Rightarrow> number" where
  "double x =
     (let y = nearest x in
      if 2 ^ 1024 \<le> y then PlusInfinity
      else if y \<le> - (2 ^ 1024) then MinusInfinity
      else Finite y)"

definition unitRoundoff :: real where
  "unitRoundoff = 1 / 2 ^ 53"

text \<open>
  The operators the effect uses: \<^verbatim>\<open>x > y\<close>, \<^verbatim>\<open>x / y\<close>, \<^verbatim>\<open>x * y\<close>, \<^verbatim>\<open>x - y\<close> and
  \<^verbatim>\<open>Math.min(x, y)\<close>, on all numbers.
\<close>

fun num_greater :: "number \<Rightarrow> number \<Rightarrow> bool" where
  "num_greater NaN y = False"
| "num_greater x NaN = False"
| "num_greater (Finite a) (Finite b) = (a > b)"
| "num_greater x PlusInfinity = False"
| "num_greater MinusInfinity y = False"
| "num_greater PlusInfinity y = True"
| "num_greater x MinusInfinity = True"

fun num_divide :: "number \<Rightarrow> number \<Rightarrow> number" where
  "num_divide NaN y = NaN"
| "num_divide x NaN = NaN"
| "num_divide (Finite a) (Finite b) =
     (if b = 0 then (if a = 0 then NaN else if 0 < a then PlusInfinity else MinusInfinity)
      else double (a / b))"
| "num_divide (Finite a) y = Finite 0"
| "num_divide PlusInfinity (Finite b) = (if 0 \<le> b then PlusInfinity else MinusInfinity)"
| "num_divide MinusInfinity (Finite b) = (if 0 \<le> b then MinusInfinity else PlusInfinity)"
| "num_divide x y = NaN"

fun num_times :: "number \<Rightarrow> number \<Rightarrow> number" where
  "num_times NaN y = NaN"
| "num_times x NaN = NaN"
| "num_times (Finite a) (Finite b) = double (a * b)"
| "num_times (Finite a) PlusInfinity =
     (if a = 0 then NaN else if 0 < a then PlusInfinity else MinusInfinity)"
| "num_times (Finite a) MinusInfinity =
     (if a = 0 then NaN else if 0 < a then MinusInfinity else PlusInfinity)"
| "num_times PlusInfinity (Finite b) =
     (if b = 0 then NaN else if 0 < b then PlusInfinity else MinusInfinity)"
| "num_times MinusInfinity (Finite b) =
     (if b = 0 then NaN else if 0 < b then MinusInfinity else PlusInfinity)"
| "num_times PlusInfinity PlusInfinity = PlusInfinity"
| "num_times MinusInfinity MinusInfinity = PlusInfinity"
| "num_times x y = MinusInfinity"

fun num_minus :: "number \<Rightarrow> number \<Rightarrow> number" where
  "num_minus NaN y = NaN"
| "num_minus x NaN = NaN"
| "num_minus (Finite a) (Finite b) = double (a - b)"
| "num_minus (Finite a) PlusInfinity = MinusInfinity"
| "num_minus (Finite a) MinusInfinity = PlusInfinity"
| "num_minus PlusInfinity PlusInfinity = NaN"
| "num_minus PlusInfinity y = PlusInfinity"
| "num_minus MinusInfinity MinusInfinity = NaN"
| "num_minus MinusInfinity y = MinusInfinity"

fun Math_min :: "number \<Rightarrow> number \<Rightarrow> number" where
  "Math_min NaN y = NaN"
| "Math_min x NaN = NaN"
| "Math_min MinusInfinity y = MinusInfinity"
| "Math_min x MinusInfinity = MinusInfinity"
| "Math_min PlusInfinity y = y"
| "Math_min x PlusInfinity = x"
| "Math_min (Finite a) (Finite b) = Finite (min a b)"

text \<open>
  The effect that scales and centres the page: the local values it computes, and what it
  stores (\<^verbatim>\<open>setPdfScale\<close>, \<^verbatim>\<open>setPdfOffsets\<close>), \<open>None\<close> when its condition does not hold and
  nothing is stored.
\<close>

record layout =
  width :: number
  height :: number

record page_fit =
  pdfScale :: number
  offsetTop :: number
  offsetLeft :: number

definition fitScale :: "layout \<Rightarrow> layout \<Rightarrow> number" where
  "fitScale pdfLayout containerLayout =
     (let scaleToFitWidth = num_divide (width containerLayout) (width pdfLayout);
          scaleToFitHeight = num_divide (height containerLayout) (height pdfLayout)
      in Math_min scaleToFitWidth scaleToFitHeight)"

definition scaledPdfWidth :: "layout \<Rightarrow> layout \<Rightarrow> number" where
  "scaledPdfWidth pdfLayout containerLayout =
     num_times (width pdfLayout) (fitScale pdfLayout containerLayout)"

definition scaledPdfHeight :: "layout \<Rightarrow> layout \<Rightarrow> number" where
  "scaledPdfHeight pdfLayout containerLayout =
     num_times (height pdfLayout) (fitScale pdfLayout containerLayout)"

definition pageFit :: "layout \<Rightarrow> layout \<Rightarrow> page_fit option" where
  "pageFit pdfLayout containerLayout =
     (if num_greater (width pdfLayout) (Finite 1) \<and> num_greater (height pdfLayout) (Finite 1)
         \<and> num_greater (width containerLayout) (Finite 0)
         \<and> num_greater (height containerLayout) (Finite 0) then
        let scale = fitScale pdfLayout containerLayout;
            topOffset = num_divide (num_minus (height containerLayout)
                                      (scaledPdfHeight pdfLayout containerLayout)) (Finite 2);
            leftOffset = num_divide (num_minus (width containerLayout)
                                       (scaledPdfWidth pdfLayout containerLayout)) (Finite 2)
        in Some \<lparr>pdfScale = scale, offsetTop = topOffset, offsetLeft = leftOffset\<rparr>
      else None)"

section \<open>A small library used to instantiate the theorems\<close>

definition bookA :: book where
  "bookA = \<lparr>id_arquivo = ''a'', nome_original = ''A.pdf'', total_paginas = 2,
     status = ''processing'', lastPosition = 0, listeningTime = Some 0, completed = False,
     bookmarks = Some [], annotations = Some Map.empty, localUri = Some ''file:a''\<rparr>"

definition bookB :: book where
  "bookB = \<lparr>id_arquivo = ''b'', nome_original = ''B.pdf'', total_paginas = 3,
     status = ''ready'', lastPosition = 1, listeningTime = None, completed = False,
     bookmarks = None, annotations = None, localUri = None\<rparr>"

definition shelf :: "nat world" where
  "shelf = \<lparr>library_item = Json [bookA, bookB],
     book_data = (\<lambda>i. Missing)(''a'' := Json [], ''b'' := Json [7, 8, 9]),
     local_files = {''file:a''}, processingControl = {}, progress = Map.empty,
     libraryState = [bookA, bookB], reloadsPending = 0\<rparr>"

definition shelfBusy :: "nat world" where
  "shelfBusy = shelf\<lparr>processingControl := {''a''}\<rparr>"

text \<open>The same library after page 1 of book a was stored, and an environment in which the only
  failure is the look at the page file when a loop counts the pages on disk.\<close>

definition shelfPartial :: "nat world" where
  "shelfPartial = shelf\<lparr>book_data := (book_data shelf)(''a'' := Json [10])\<rparr>"

definition readFailsAtResume :: "pc \<Rightarrow> faults" where
  "readFailsAtResume pc0 =
     (if pc0 = Resuming then no_faults\<lparr>getInfo_throws := True\<rparr> else no_faults)"

text \<open>A service that answers every page \<open>n\<close> with the record \<open>10 * n\<close>, and an environment in
  which the only failure is the write of the page file while page 1 is appended.\<close>

definition tens :: "int \<Rightarrow> nat response" where
  "tens n = Sucesso (nat (10 * n))"

definition writeFailsOnPage1 :: "pc \<Rightarrow> faults" where
  "writeFailsOnPage1 pc0 =
     (if pc0 = Fetching 1 then no_faults\<lparr>writeAsString_throws := True\<rparr> else no_faults)"

text \<open>The player as the screen opens on page 0, and a tap on the button for the next page.\<close>

definition player0 :: player where
  "player0 = \<lparr>navLock = False, lastPageChangeAt = 0, pendingNavTimeout = None,
     lockTimeouts = [], isPageLoading = False, isPlaying = False, timerRunning = False,
     speaking = False, showMagnifier = False, snapshotUri = None, currentWordIndex = - 1,
     currentPageIndex = 0\<rparr>"

definition nextPage :: goto_args where
  "nextPage = \<lparr>deltaOrIndex = 1, absolute = False, continueSpeech = False\<rparr>"

definition playerAfterChange :: player where
  "playerAfterChange = foldl nav_step player0 [Request 1000 nextPage, PageLoaded]"

text \<open>A page of 595 by 842 units in a container of 400 by 600 pixels.\<close>

definition a4 :: layout where
  "a4 = \<lparr>width = Finite 595, height = Finite 842\<rparr>"

definition phone :: layout where
  "phone = \<lparr>width = Finite 400, height = Finite 600\<rparr>"

text \<open>A layout with equal sides.\<close>

definition square :: "real \<Rightarrow> layout" where
  "square a = \<lparr>width = Finite a, height = Finite a\<rparr>"

section \<open>Properties of the store\<close>

lemma appendPageData_fs_ok:
  "fs_ok f \<Longrightarrow> book_data w bookId = Json pages \<Longrightarrow>
   appendPageData f w bookId p =
     Inr (w\<lparr>book_data := (book_data w)(bookId := Json (pages @ [p]))\<rparr>, Suc (length pages))"
  by (simp add: appendPageData_def loadBookPages_def fs_ok_def)

lemma appendPages_fs_ok:
  "\<forall>c \<in> set calls. fs_ok (fst c) \<Longrightarrow> book_data w bookId = Json pages \<Longrightarrow>
   book_data (fst (appendPages w bookId calls)) bookId = Json (pages @ map snd calls) \<and>
   snd (appendPages w bookId calls) = map (\<lambda>i. Inr (length pages + Suc i)) [0 ..< length calls]"
proof (induction calls arbitrary: w pages)
  case Nil
  then show ?case by simp
next
  case (Cons c calls)
  obtain f p where c: "c = (f, p)" by (cases c)
  let ?w1 = "w\<lparr>book_data := (book_data w)(bookId := Json (pages @ [p]))\<rparr>"
  have ok: "fs_ok f" using Cons.prems(1) c by simp
  have step: "appendPageData f w bookId p = Inr (?w1, Suc (length pages))"
    using appendPageData_fs_ok [OF ok Cons.prems(2)] .
  have rest: "\<forall>c \<in> set calls. fs_ok (fst c)" using Cons.prems(1) by simp
  have file1: "book_data ?w1 bookId = Json (pages @ [p])" by simp
  note IH = Cons.IH [OF rest file1]
  have upt: "[0 ..< Suc (length calls)] = 0 # map Suc [0 ..< length calls]"
    by (simp add: upt_conv_Cons map_Suc_upt del: upt_Suc)
  show ?case
    using IH by (auto simp add: c step upt o_def split: prod.splits simp del: upt_Suc)
qed

text \<open>
  Claim C4. With the file system calls succeeding, \<^verbatim>\<open>appendPageData\<close> reads the stored page
  array, appends the new record at its end, writes the array back and returns the new length;
  so \<open>N\<close> calls for a book whose page file holds the empty array leave exactly the \<open>N\<close> records
  in that file, in call order, the \<open>i\<close>-th call returning \<open>i\<close>, and \<^verbatim>\<open>loadBookPages\<close> returns
  them.
\<close>

theorem C4_appendPageData_in_call_order:
  assumes "\<forall>c \<in> set calls. fs_ok (fst c)" and "fs_ok f"
    and "\<not> getInfo_throws g" and "\<not> readAsString_throws g"
  shows "(\<forall>pages. book_data w bookId = Json pages \<longrightarrow>
            (\<exists>w1. appendPageData f w bookId p = Inr (w1, length pages + 1)
               \<and> book_data w1 = (book_data w)(bookId := Json (pages @ [p]))
               \<and> loadBookPages g w1 bookId = Some (pages @ [p])))
     \<and> (book_data w bookId = Json [] \<longrightarrow>
            loadBookPages g (fst (appendPages w bookId calls)) bookId = Some (map snd calls)
          \<and> snd (appendPages w bookId calls) = map (\<lambda>i. Inr (Suc i)) [0 ..< length calls])"
proof -
  have one: "\<exists>w1. appendPageData f w bookId p = Inr (w1, length pages + 1)
               \<and> book_data w1 = (book_data w)(bookId := Json (pages @ [p]))
               \<and> loadBookPages g w1 bookId = Some (pages @ [p])"
    if "book_data w bookId = Json pages" for pages
    using appendPageData_fs_ok [OF assms(2) that, of p] assms(3,4)
    by (simp add: loadBookPages_def)
  have many: "loadBookPages g (fst (appendPages w bookId calls)) bookId = Some (map snd calls)
          \<and> snd (appendPages w bookId calls) = map (\<lambda>i. Inr (Suc i)) [0 ..< length calls]"
    if "book_data w bookId = Json []"
    using appendPages_fs_ok [OF assms(1) that] assms(3,4)
    by (simp add: loadBookPages_def)
  from one many show ?thesis by blast
qed


theorem C4_witness:
  "(\<exists>w1. appendPageData no_faults shelf ''b'' 10 = Inr (w1, 4)
      \<and> loadBookPages no_faults w1 ''b'' = Some [7, 8, 9, 10])
   \<and> loadBookPages no_faults (fst (appendPages shelf ''a'' [(no_faults, 4), (no_faults, 5)])) ''a''
       = Some [4, 5]
   \<and> snd (appendPages shelf ''a'' [(no_faults, 4), (no_faults, 5)]) = [Inr 1, Inr 2]"
proof -
  have ok: "fs_ok no_faults" "\<not> getInfo_throws no_faults" "\<not> readAsString_throws no_faults"
    by (simp_all add: fs_ok_def no_faults_def)
  have calls: "\<forall>c \<in> set [(no_faults, 4::nat), (no_faults, 5)]. fs_ok (fst c)"
    using ok(1) by simp
  have files: "book_data shelf ''b'' = Json [7, 8, 9]" "book_data shelf ''a'' = Json []"
    by (simp_all add: shelf_def)
  have upt2: "[0 ..< 2] = [0, Suc 0]"
    by (simp add: upt_conv_Cons)
  from C4_appendPageData_in_call_order [OF calls ok, of shelf "''b''" 10] files(1)
  have one: "\<exists>w1. appendPageData no_faults shelf ''b'' 10 = Inr (w1, 4)
      \<and> loadBookPages no_faults w1 ''b'' = Some [7, 8, 9, 10]"
    by auto
  from C4_appendPageData_in_call_order [OF calls ok, of shelf "''a''" 10] files(2) upt2
  have two: "loadBookPages no_faults
        (fst (appendPages shelf ''a'' [(no_faults, 4), (no_faults, 5)])) ''a'' = Some [4, 5]
      \<and> snd (appendPages shelf ''a'' [(no_faults, 4), (no_faults, 5)]) = [Inr 1, Inr 2]"
    by simp
  from one two show ?thesis by blast
qed

lemma mutator_generic:
  assumes "\<And>b. id_arquivo b \<noteq> bookId \<Longrightarrow> g b = b"
  shows "\<exists>w'. (case saveLibrary f w (map g (loadLibrary f w)) of Inl e \<Rightarrow> Inr w | Inr w1 \<Rightarrow> Inr w1)
            = (Inr w' :: error + 'p world)
     \<and> w' = w\<lparr>library_item := library_item w'\<rparr>
     \<and> (setItem_throws f \<longrightarrow> w' = w)
     \<and> (\<not> setItem_throws f \<longrightarrow>
          (getItem_throws f \<or> library_item w = Missing \<or> library_item w = Malformed) \<longrightarrow>
          library_item w' = Json [])
     \<and> (\<not> getItem_throws f \<longrightarrow>
          (\<forall>lib. library_item w = Json lib \<longrightarrow>
             (\<exists>lib'. library_item w' = Json lib'
                \<and> length lib' = length lib
                \<and> (\<forall>i < length lib. id_arquivo (lib ! i) \<noteq> bookId \<longrightarrow> lib' ! i = lib ! i)
                \<and> ((\<forall>b \<in> set lib. id_arquivo b \<noteq> bookId) \<longrightarrow> w' = w))))"
proof (cases "setItem_throws f")
  case True
  then show ?thesis by (simp add: saveLibrary_def)
next
  case False
  have same: "(\<forall>b \<in> set l. id_arquivo b \<noteq> bookId) \<Longrightarrow> map g l = l" for l
    by (induction l) (simp_all add: assms)
  show ?thesis
    using False assms same
    by (auto simp add: saveLibrary_def loadLibrary_def split: cell.splits)
qed

text \<open>Claim C10, counterexample: \<^verbatim>\<open>AsyncStorage.getItem\<close> throws while the mutator reads
  the library. \<^verbatim>\<open>loadLibrary\<close> catches the error and returns the empty list, the mutator maps
  over it and stores the result: the stored library, which held two books, is the empty array,
  with an identifier that is not in the library and with one that is.\<close>

theorem C10_counterexample:
  "library_item shelf = Json [bookA, bookB]
   \<and> (case mutate (no_faults\<lparr>getItem_throws := True\<rparr>) shelf ''zz'' (AddBookmark 1) of
         Inl e \<Rightarrow> None
       | Inr w' \<Rightarrow> Some (library_item w')) = Some (Json [])
   \<and> (case mutate (no_faults\<lparr>getItem_throws := True\<rparr>) shelf ''a'' (UpdateBookStatus ''failed'') of
         Inl e \<Rightarrow> None
       | Inr w' \<Rightarrow> Some (library_item w')) = Some (Json [])"
  by (simp add: shelf_def no_faults_def addBookmark_def updateBookStatus_def loadLibrary_def
      saveLibrary_def)

text \<open>
  Claim C10, as amended. Each of \<^verbatim>\<open>updateBookStatus\<close>, \<^verbatim>\<open>updateBookState\<close>,
  \<^verbatim>\<open>addBookmark\<close>, \<^verbatim>\<open>removeBookmark\<close>, \<^verbatim>\<open>saveAnnotation\<close> and \<^verbatim>\<open>removeAnnotation\<close>
  returns without an error whatever storage call throws, and changes nothing but the stored
  library. When \<^verbatim>\<open>setItem\<close> throws nothing changes. When \<^verbatim>\<open>setItem\<close> works and the library
  is not read, because \<^verbatim>\<open>getItem\<close> throws or the item is absent or not parseable, the stored
  library becomes the empty array. When \<^verbatim>\<open>getItem\<close> returns the stored array, the array
  stored afterwards has the same length and holds every entry of another identifier unchanged
  at its position, and nothing at all changes when no entry has the given identifier.
\<close>

theorem C10_mutators_frame:
  "\<exists>w'. mutate f w bookId m = Inr w'
     \<and> w' = w\<lparr>library_item := library_item w'\<rparr>
     \<and> (setItem_throws f \<longrightarrow> w' = w)
     \<and> (\<not> setItem_throws f \<longrightarrow>
          (getItem_throws f \<or> library_item w = Missing \<or> library_item w = Malformed) \<longrightarrow>
          library_item w' = Json [])
     \<and> (\<not> getItem_throws f \<longrightarrow>
          (\<forall>lib. library_item w = Json lib \<longrightarrow>
             (\<exists>lib'. library_item w' = Json lib'
                \<and> length lib' = length lib
                \<and> (\<forall>i < length lib. id_arquivo (lib ! i) \<noteq> bookId \<longrightarrow> lib' ! i = lib ! i)
                \<and> ((\<forall>b \<in> set lib. id_arquivo b \<noteq> bookId) \<longrightarrow> w' = w))))"
proof (cases m)
  case (UpdateBookStatus st)
  show ?thesis
    unfolding UpdateBookStatus mutate.simps updateBookStatus_def Let_def
    by (rule mutator_generic) simp
next
  case (UpdateBookState pageIndex timeIncrement)
  show ?thesis
    unfolding UpdateBookState mutate.simps updateBookState_def Let_def
    by (rule mutator_generic) simp
next
  case (AddBookmark pageIndex)
  show ?thesis
    unfolding AddBookmark mutate.simps addBookmark_def Let_def
    by (rule mutator_generic) simp
next
  case (RemoveBookmark pageIndex)
  show ?thesis
    unfolding RemoveBookmark mutate.simps removeBookmark_def Let_def
    by (rule mutator_generic) simp
next
  case (SaveAnnotation pageIndex annotation)
  show ?thesis
    unfolding SaveAnnotation mutate.simps saveAnnotation_def Let_def
    by (rule mutator_generic) simp
next
  case (RemoveAnnotation pageIndex)
  show ?thesis
    unfolding RemoveAnnotation mutate.simps removeAnnotation_def Let_def
    by (rule mutator_generic) simp
qed

theorem C10_witness:
  "(\<exists>w' lib'. mutate no_faults shelf ''a'' (AddBookmark 1) = Inr w'
      \<and> library_item w' = Json lib' \<and> length lib' = 2 \<and> lib' ! 1 = bookB)
   \<and> mutate no_faults shelf ''zz'' (UpdateBookStatus ''failed'') = Inr shelf
   \<and> mutate (no_faults\<lparr>setItem_throws := True\<rparr>) shelf ''a'' (AddBookmark 1) = Inr shelf
   \<and> (\<exists>w'. mutate (no_faults\<lparr>getItem_throws := True\<rparr>) shelf ''a'' (AddBookmark 1) = Inr w'
        \<and> library_item w' = Json [])"
proof -
  have lib: "library_item shelf = Json [bookA, bookB]"
    by (simp add: shelf_def)
  have ids: "id_arquivo bookA = ''a''" "id_arquivo bookB = ''b''"
    by (simp_all add: bookA_def bookB_def)
  have nf: "\<not> getItem_throws no_faults" "\<not> setItem_throws no_faults"
    by (simp_all add: no_faults_def)
  from C10_mutators_frame [of no_faults shelf "''a''" "AddBookmark 1"] nf lib ids
  have one: "\<exists>w' lib'. mutate no_faults shelf ''a'' (AddBookmark 1) = Inr w'
      \<and> library_item w' = Json lib' \<and> length lib' = 2 \<and> lib' ! 1 = bookB"
    by auto
  from C10_mutators_frame [of no_faults shelf "''zz''" "UpdateBookStatus ''failed''"] nf lib ids
  have two: "mutate no_faults shelf ''zz'' (UpdateBookStatus ''failed'') = Inr shelf"
    by auto
  from C10_mutators_frame [of "no_faults\<lparr>setItem_throws := True\<rparr>" shelf "''a''" "AddBookmark 1"]
  have three: "mutate (no_faults\<lparr>setItem_throws := True\<rparr>) shelf ''a'' (AddBookmark 1) = Inr shelf"
    by auto
  from C10_mutators_frame [of "no_faults\<lparr>getItem_throws := True\<rparr>" shelf "''a''" "AddBookmark 1"]
  have four: "\<exists>w'. mutate (no_faults\<lparr>getItem_throws := True\<rparr>) shelf ''a'' (AddBookmark 1) = Inr w'
        \<and> library_item w' = Json []"
    by (auto simp: no_faults_def)
  from one two three four show ?thesis by blast
qed

text \<open>Claim C9, counterexample: \<^verbatim>\<open>saveAnnotation\<close> itself stores the text it is given, also
  the empty string.\<close>

theorem C9_counterexample:
  "(case saveAnnotation no_faults shelf ''a'' 0 [] of
      Inl e \<Rightarrow> None | Inr w' \<Rightarrow> annotationOf w' ''a'' 0) = Some []"
  by (simp add: saveAnnotation_def saveLibrary_def loadLibrary_def annotationOf_def shelf_def
      no_faults_def bookA_def bookB_def)


lemma trim_nonempty: "trim s \<noteq> [] \<Longrightarrow> s \<noteq> []"
  by (auto simp: trim_def)

lemma ran_upd_no_empty: "[] \<notin> ran m \<Longrightarrow> v \<noteq> [] \<Longrightarrow> [] \<notin> ran (m(k \<mapsto> v))"
  by (auto simp: ran_def split: if_splits)

lemma ran_del_no_empty: "[] \<notin> ran m \<Longrightarrow> [] \<notin> ran (m(k := None))"
  by (auto simp: ran_def split: if_splits)

lemma find_map_frame:
  assumes "\<And>b. id_arquivo (g b) = id_arquivo b"
  shows "find (\<lambda>b. id_arquivo b = bookId) (map g l)
       = map_option g (find (\<lambda>b. id_arquivo b = bookId) l)"
  by (induction l) (simp_all add: assms)

lemma find_Some_holds: "find P l = Some b \<Longrightarrow> P b"
  by (induction l) (auto split: if_splits)

lemma loadLibrary_subset: "set (loadLibrary f w) \<subseteq> set (loadLibrary no_faults w)"
  by (simp add: loadLibrary_def no_faults_def)

lemma noEmptyAnnotation_map:
  assumes "noEmptyAnnotation w"
    and "\<And>b. noEmptyIn b \<Longrightarrow> noEmptyIn (g b)"
  shows "noEmptyAnnotation (w\<lparr>library_item := Json (map g (loadLibrary f w))\<rparr>)"
proof -
  have "\<forall>b \<in> set (loadLibrary f w). noEmptyIn b"
    using assms(1) loadLibrary_subset [of f w] by (auto simp: noEmptyAnnotation_def)
  then have "\<forall>b \<in> set (map g (loadLibrary f w)). noEmptyIn b"
    using assms(2) by auto
  then show ?thesis
    by (simp add: noEmptyAnnotation_def loadLibrary_def no_faults_def)
qed

text \<open>
  Claim C9, as amended. \<^verbatim>\<open>handleSaveAnnotation\<close>, the caller of \<^verbatim>\<open>saveAnnotation\<close> and
  \<^verbatim>\<open>removeAnnotation\<close>, returns without an error and never introduces an empty string under a
  page index. When the library was read and written, a text that is empty after \<^verbatim>\<open>trim\<close>
  leaves no annotation under the page index (the key is deleted by \<^verbatim>\<open>removeAnnotation\<close>), and
  any other text is not empty and is the annotation stored under the page index of the book, if
  the book is in the library.
\<close>

theorem C9_handleSaveAnnotation_deletes_empty:
  "\<exists>w'. handleSaveAnnotation f w bookId pageIndex currentAnnotation = Inr w'
     \<and> (noEmptyAnnotation w \<longrightarrow> noEmptyAnnotation w')
     \<and> (\<not> getItem_throws f \<and> \<not> setItem_throws f \<longrightarrow>
          (trim currentAnnotation = [] \<longrightarrow> annotationOf w' bookId pageIndex = None)
        \<and> (trim currentAnnotation \<noteq> [] \<longrightarrow>
             currentAnnotation \<noteq> []
           \<and> (annotationOf w' bookId pageIndex = Some currentAnnotation
              \<or> (\<forall>b \<in> set (loadLibrary f w). id_arquivo b \<noteq> bookId))))"
proof (cases "setItem_throws f")
  case True
  then show ?thesis
    by (simp add: handleSaveAnnotation_def saveAnnotation_def removeAnnotation_def saveLibrary_def)
next
  case noset: False
  show ?thesis
  proof (cases "trim currentAnnotation = []")
    case True
    let ?g = "\<lambda>book. if id_arquivo book = bookId then
                book\<lparr>annotations := Some
                  ((case annotations book of None \<Rightarrow> Map.empty | Some m \<Rightarrow> m)(pageIndex := None))\<rparr>
              else book"
    let ?w' = "w\<lparr>library_item := Json (map ?g (loadLibrary f w))\<rparr>"
    have res: "handleSaveAnnotation f w bookId pageIndex currentAnnotation = Inr ?w'"
      using True noset
      by (simp add: handleSaveAnnotation_def removeAnnotation_def saveLibrary_def)
    have lib': "loadLibrary no_faults ?w' = map ?g (loadLibrary f w)"
      by (simp add: loadLibrary_def no_faults_def)
    have inv: "noEmptyAnnotation w \<longrightarrow> noEmptyAnnotation ?w'"
      by (auto intro!: noEmptyAnnotation_map simp: noEmptyIn_def ran_del_no_empty
          split: option.splits)
    have del: "annotationOf ?w' bookId pageIndex = None"
      unfolding annotationOf_def lib'
      by (subst find_map_frame) (auto split: option.splits dest: find_Some_holds)
    show ?thesis using res inv del True by simp
  next
    case False
    then have ne: "currentAnnotation \<noteq> []" by (rule trim_nonempty)
    let ?g = "\<lambda>book. if id_arquivo book = bookId then
                book\<lparr>annotations := Some
                  ((case annotations book of None \<Rightarrow> Map.empty | Some m \<Rightarrow> m)
                     (pageIndex \<mapsto> currentAnnotation))\<rparr>
              else book"
    let ?w' = "w\<lparr>library_item := Json (map ?g (loadLibrary f w))\<rparr>"
    have res: "handleSaveAnnotation f w bookId pageIndex currentAnnotation = Inr ?w'"
      using False noset
      by (simp add: handleSaveAnnotation_def saveAnnotation_def saveLibrary_def)
    have lib': "loadLibrary no_faults ?w' = map ?g (loadLibrary f w)"
      by (simp add: loadLibrary_def no_faults_def)
    have inv: "noEmptyAnnotation w \<longrightarrow> noEmptyAnnotation ?w'"
      using ne
      by (auto intro!: noEmptyAnnotation_map simp: noEmptyIn_def ran_upd_no_empty
          split: option.splits)
    have sav: "annotationOf ?w' bookId pageIndex = Some currentAnnotation
         \<or> (\<forall>b \<in> set (loadLibrary f w). id_arquivo b \<noteq> bookId)"
      unfolding annotationOf_def lib'
      by (subst find_map_frame)
        (auto split: option.splits dest: find_Some_holds simp: find_None_iff)
    show ?thesis using res inv sav False ne by simp
  qed
qed


theorem C9_witness:
  "(\<exists>w'. handleSaveAnnotation no_faults shelf ''a'' 0 [32, 9] = Inr w'
      \<and> noEmptyAnnotation w' \<and> annotationOf w' ''a'' 0 = None)
   \<and> (\<exists>w'. handleSaveAnnotation no_faults shelf ''a'' 0 [104, 105] = Inr w'
      \<and> noEmptyAnnotation w' \<and> annotationOf w' ''a'' 0 = Some [104, 105])"
proof -
  have inv: "noEmptyAnnotation shelf"
    by (simp add: noEmptyAnnotation_def noEmptyIn_def loadLibrary_def shelf_def no_faults_def
        bookA_def bookB_def)
  have nf: "\<not> getItem_throws no_faults \<and> \<not> setItem_throws no_faults"
    by (simp add: no_faults_def)
  have blank: "trim [32, 9] = []" and nonblank: "trim [104, 105] \<noteq> []"
    by (simp_all add: trim_def isWhiteSpace_def)
  have present: "\<not> (\<forall>b \<in> set (loadLibrary no_faults shelf). id_arquivo b \<noteq> ''a'')"
    by (simp add: loadLibrary_def shelf_def no_faults_def bookA_def)
  from C9_handleSaveAnnotation_deletes_empty [of no_faults shelf "''a''" 0 "[32, 9]"] inv nf blank
  have one: "\<exists>w'. handleSaveAnnotation no_faults shelf ''a'' 0 [32, 9] = Inr w'
      \<and> noEmptyAnnotation w' \<and> annotationOf w' ''a'' 0 = None"
    by auto
  from C9_handleSaveAnnotation_deletes_empty [of no_faults shelf "''a''" 0 "[104, 105]"] inv nf nonblank present
  have two: "\<exists>w'. handleSaveAnnotation no_faults shelf ''a'' 0 [104, 105] = Inr w'
      \<and> noEmptyAnnotation w' \<and> annotationOf w' ''a'' 0 = Some [104, 105]"
    by auto
  from one two show ?thesis by blast
qed

section \<open>Properties of the ingestion loop\<close>

lemma updateBookStatus_result:
  "\<exists>w1. updateBookStatus f w bookId st = Inr w1
     \<and> book_data w1 = book_data w \<and> processingControl w1 = processingControl w
     \<and> progress w1 = progress w \<and> local_files w1 = local_files w
     \<and> (\<not> setItem_throws f \<longrightarrow>
          library_item w1 = Json (map (\<lambda>book. if id_arquivo book = bookId
                                     then book\<lparr>status := st\<rparr> else book) (loadLibrary f w)))
     \<and> (setItem_throws f \<longrightarrow> w1 = w)"
  by (simp add: updateBookStatus_def saveLibrary_def)

lemma processPage_catch_result:
  "\<exists>w1. processPage_catch f w bookInfo = Inr (w1, Finished)
     \<and> book_data w1 = book_data w
     \<and> processingControl w1 = processingControl w - {id_arquivo bookInfo}"
  using updateBookStatus_result [of f w "id_arquivo bookInfo" "''failed''"]
  by (auto simp: processPage_catch_def)

lemma processPage_request_result:
  "\<exists>w1 pc1. processPage_request f w bookInfo pageNumber = Inr (w1, pc1)
     \<and> book_data w1 = book_data w
     \<and> ((pc1 = Finished \<and> processingControl w1 = processingControl w - {id_arquivo bookInfo})
        \<or> (pc1 = Fetching pageNumber \<and> w1 = w \<and> pageNumber \<le> total_paginas bookInfo
            \<and> (\<exists>b \<in> set (loadLibrary f w). id_arquivo b = id_arquivo bookInfo)))"
  using updateBookStatus_result [of f w "id_arquivo bookInfo" "''ready''"]
  by (auto simp: processPage_request_def)

lemma appendPageData_marker:
  "appendPageData f w bookId p = Inr (w1, n) \<Longrightarrow> processingControl w1 = processingControl w"
  by (auto simp: appendPageData_def Let_def split: if_splits)

lemma processPage_response_result:
  "\<exists>w1 pc1. processPage_response f w bookInfo pageNumber r = Inr (w1, pc1)
     \<and> ((pc1 = Finished \<and> processingControl w1 = processingControl w - {id_arquivo bookInfo}
           \<and> book_data w1 = book_data w)
        \<or> (pc1 = CycleStart (pageNumber + 1) \<and> processingControl w1 = processingControl w))"
proof (cases r)
  case (Sucesso pageData)
  show ?thesis
  proof (cases "appendPageData f w (id_arquivo bookInfo) pageData")
    case (Inl e)
    then show ?thesis
      using processPage_catch_result [of f w bookInfo] Sucesso
      by (auto simp: processPage_response_def)
  next
    case (Inr res)
    obtain w1 n where res: "res = (w1, n)" by (cases res)
    show ?thesis
      using Inr res Sucesso appendPageData_marker [of f w "id_arquivo bookInfo" pageData w1 n]
      by (simp add: processPage_response_def)
  qed
next
  case OtherStatus
  then show ?thesis
    using processPage_catch_result [of f w bookInfo] by (auto simp: processPage_response_def)
next
  case RequestFailed
  then show ?thesis
    using processPage_catch_result [of f w bookInfo] by (auto simp: processPage_response_def)
qed

lemma advance_result:
  "\<exists>w1 pc1. advance f r bookInfo w pc0 = Inr (w1, pc1)
     \<and> (pc0 = Finished \<longrightarrow> pc1 = Finished \<and> w1 = w)
     \<and> (pc1 \<noteq> Finished \<longrightarrow> processingControl w1 = processingControl w)
     \<and> (pc1 = Finished \<longrightarrow> pc0 \<noteq> Finished \<longrightarrow>
          processingControl w1 = processingControl w - {id_arquivo bookInfo})"
proof (cases pc0)
  case Resuming
  then show ?thesis by simp
next
  case (CycleStart n)
  then show ?thesis
    using processPage_request_result [of f w bookInfo n] by auto
next
  case (Fetching n)
  then show ?thesis
    using processPage_response_result [of f w bookInfo n r] by auto
next
  case Finished
  then show ?thesis by simp
qed


lemma atMostOne_index:
  "length (filter P xs) \<le> 1 \<longleftrightarrow>
   (\<forall>i < length xs. \<forall>j < length xs. P (xs ! i) \<longrightarrow> P (xs ! j) \<longrightarrow> i = j)"
proof (induction xs)
  case Nil
  then show ?case by simp
next
  case (Cons x xs)
  show ?case
  proof (cases "P x")
    case True
    have "(filter P xs = []) \<longleftrightarrow> (\<forall>j < length xs. \<not> P (xs ! j))"
      by (simp add: filter_empty_conv all_set_conv_all_nth)
    moreover have "(\<forall>j < length xs. \<not> P (xs ! j)) \<longleftrightarrow>
        (\<forall>i < length (x # xs). \<forall>j < length (x # xs).
            P ((x # xs) ! i) \<longrightarrow> P ((x # xs) ! j) \<longrightarrow> i = j)" (is "?L \<longleftrightarrow> ?R")
    proof
      assume l: ?L
      show ?R
      proof (intro allI impI)
        fix i j
        assume "i < length (x # xs)" "j < length (x # xs)" "P ((x # xs) ! i)" "P ((x # xs) ! j)"
        then show "i = j" using l by (cases i; cases j) auto
      qed
    next
      assume r: ?R
      show ?L
      proof (intro allI impI)
        fix j assume j: "j < length xs"
        show "\<not> P (xs ! j)"
        proof
          assume "P (xs ! j)"
          with r [rule_format, of 0 "Suc j"] True j show False by simp
        qed
      qed
    qed
    ultimately show ?thesis using True by simp
  next
    case False
    have "(\<forall>i < length xs. \<forall>j < length xs. P (xs ! i) \<longrightarrow> P (xs ! j) \<longrightarrow> i = j) \<longleftrightarrow>
        (\<forall>i < length (x # xs). \<forall>j < length (x # xs).
            P ((x # xs) ! i) \<longrightarrow> P ((x # xs) ! j) \<longrightarrow> i = j)" (is "?L \<longleftrightarrow> ?R")
    proof
      assume l: ?L
      show ?R
      proof (intro allI impI)
        fix i j
        assume "i < length (x # xs)" "j < length (x # xs)" "P ((x # xs) ! i)" "P ((x # xs) ! j)"
        then show "i = j" using l False by (cases i; cases j) auto
      qed
    next
      assume r: ?R
      show ?L
      proof (intro allI impI)
        fix i j
        assume "i < length xs" "j < length xs" "P (xs ! i)" "P (xs ! j)"
        with r [rule_format, of "Suc i" "Suc j"] show "i = j" by simp
      qed
    qed
    then show ?thesis using False Cons.IH by simp
  qed
qed

lemma singleFlight_all:
  "singleFlight s \<longleftrightarrow>
     (\<forall>bookId. length (activeLoops s bookId) \<le> 1)
   \<and> (\<forall>l \<in> set (loops s). snd l \<noteq> Finished \<longrightarrow>
        id_arquivo (fst l) \<in> processingControl (world_of s))"
proof -
  have "length (activeLoops s bookId) \<le> 1"
    if own: "\<forall>l \<in> set (loops s). length (activeLoops s (id_arquivo (fst l))) \<le> 1"
    for bookId
  proof (cases "\<exists>l \<in> set (loops s). id_arquivo (fst l) = bookId")
    case True
    with own show ?thesis by auto
  next
    case False
    then have "activeLoops s bookId = []"
      by (auto simp: activeLoops_def filter_empty_conv)
    then show ?thesis by simp
  qed
  then show ?thesis unfolding singleFlight_def by blast
qed

lemma singleFlight_index:
  "singleFlight s \<longleftrightarrow>
     (\<forall>i < length (loops s). \<forall>j < length (loops s).
        snd (loops s ! i) \<noteq> Finished \<longrightarrow> snd (loops s ! j) \<noteq> Finished \<longrightarrow>
        id_arquivo (fst (loops s ! i)) = id_arquivo (fst (loops s ! j)) \<longrightarrow> i = j)
   \<and> (\<forall>i < length (loops s). snd (loops s ! i) \<noteq> Finished \<longrightarrow>
        id_arquivo (fst (loops s ! i)) \<in> processingControl (world_of s))"
  (is "_ \<longleftrightarrow> ?A \<and> ?B")
proof -
  have a: "(\<forall>bookId. length (activeLoops s bookId) \<le> 1) \<longleftrightarrow> ?A"
    unfolding activeLoops_def atMostOne_index by (auto; metis)
  have b: "(\<forall>l \<in> set (loops s). snd l \<noteq> Finished \<longrightarrow>
            id_arquivo (fst l) \<in> processingControl (world_of s)) \<longleftrightarrow> ?B"
    by (simp add: all_set_conv_all_nth)
  show ?thesis unfolding singleFlight_all a b ..
qed

lemma fire_Trigger_singleFlight:
  assumes "singleFlight s"
  shows "singleFlight (fire s (Trigger bookInfo))"
proof (cases "id_arquivo bookInfo \<in> processingControl (world_of s)")
  case True
  then show ?thesis using assms by (simp add: processBookPages_def singleFlight_all activeLoops_def)
next
  case False
  have none: "filter (\<lambda>l. id_arquivo (fst l) = id_arquivo bookInfo \<and> snd l \<noteq> Finished) (loops s) = []"
    using assms False by (auto simp: singleFlight_all filter_empty_conv)
  show ?thesis
    using assms False none
    by (auto simp: processBookPages_def singleFlight_all activeLoops_def)
qed

lemma fire_Advance_singleFlight:
  assumes sf: "singleFlight s"
  shows "singleFlight (fire s (Advance i f r))"
proof (cases "i < length (loops s)")
  case False
  then show ?thesis using sf by simp
next
  case True
  obtain b pc0 where li: "loops s ! i = (b, pc0)" by (cases "loops s ! i")
  from advance_result [of f r b "world_of s" pc0]
  obtain w1 pc1 where adv: "advance f r b (world_of s) pc0 = Inr (w1, pc1)"
    and fin: "pc0 = Finished \<longrightarrow> pc1 = Finished \<and> w1 = world_of s"
    and keep: "pc1 \<noteq> Finished \<longrightarrow> processingControl w1 = processingControl (world_of s)"
    and drop: "pc1 = Finished \<longrightarrow> pc0 \<noteq> Finished \<longrightarrow>
          processingControl w1 = processingControl (world_of s) - {id_arquivo b}"
    by blast
  let ?s' = "s\<lparr>world_of := w1, loops := (loops s)[i := (b, pc1)]\<rparr>"
  have s': "fire s (Advance i f r) = ?s'"
    using True li adv by simp
  from sf have A: "\<And>j k. j < length (loops s) \<Longrightarrow> k < length (loops s) \<Longrightarrow>
        snd (loops s ! j) \<noteq> Finished \<Longrightarrow> snd (loops s ! k) \<noteq> Finished \<Longrightarrow>
        id_arquivo (fst (loops s ! j)) = id_arquivo (fst (loops s ! k)) \<Longrightarrow> j = k"
    and B: "\<And>j. j < length (loops s) \<Longrightarrow> snd (loops s ! j) \<noteq> Finished \<Longrightarrow>
        id_arquivo (fst (loops s ! j)) \<in> processingControl (world_of s)"
    unfolding singleFlight_index by blast+
  have same_id: "\<And>j. j < length (loops s) \<Longrightarrow>
      id_arquivo (fst (loops ?s' ! j)) = id_arquivo (fst (loops s ! j))"
    using li True by (auto simp: nth_list_update)
  have act: "\<And>j. j < length (loops s) \<Longrightarrow> snd (loops ?s' ! j) \<noteq> Finished \<Longrightarrow>
      snd (loops s ! j) \<noteq> Finished"
    using li fin True by (auto simp: nth_list_update split: if_splits)
  have A': "\<forall>j < length (loops ?s'). \<forall>k < length (loops ?s').
        snd (loops ?s' ! j) \<noteq> Finished \<longrightarrow> snd (loops ?s' ! k) \<noteq> Finished \<longrightarrow>
        id_arquivo (fst (loops ?s' ! j)) = id_arquivo (fst (loops ?s' ! k)) \<longrightarrow> j = k"
  proof (intro allI impI)
    fix j k
    assume j: "j < length (loops ?s')" and k: "k < length (loops ?s')"
      and aj: "snd (loops ?s' ! j) \<noteq> Finished" and ak: "snd (loops ?s' ! k) \<noteq> Finished"
      and e: "id_arquivo (fst (loops ?s' ! j)) = id_arquivo (fst (loops ?s' ! k))"
    from j k have j0: "j < length (loops s)" and k0: "k < length (loops s)" by simp_all
    show "j = k"
      using A [OF j0 k0 act [OF j0 aj] act [OF k0 ak]] e same_id [OF j0] same_id [OF k0]
      by simp
  qed
  have B': "\<forall>j < length (loops ?s'). snd (loops ?s' ! j) \<noteq> Finished \<longrightarrow>
        id_arquivo (fst (loops ?s' ! j)) \<in> processingControl (world_of ?s')"
  proof (intro allI impI)
    fix j
    assume j: "j < length (loops ?s')" and aj: "snd (loops ?s' ! j) \<noteq> Finished"
    from j have j0: "j < length (loops s)" by simp
    have old: "id_arquivo (fst (loops s ! j)) \<in> processingControl (world_of s)"
      using B [OF j0 act [OF j0 aj]] .
    show "id_arquivo (fst (loops ?s' ! j)) \<in> processingControl (world_of ?s')"
    proof (cases "j = i")
      case True
      then have "pc1 \<noteq> Finished" using aj j0 by simp
      with keep old True li j0 show ?thesis by simp
    next
      case ne: False
      then have lj: "loops ?s' ! j = loops s ! j" by simp
      show ?thesis
      proof (cases "pc1 = Finished \<and> pc0 \<noteq> Finished")
        case True
        have "id_arquivo (fst (loops s ! j)) \<noteq> id_arquivo b"
        proof
          assume "id_arquivo (fst (loops s ! j)) = id_arquivo b"
          then have "j = i"
            using A [OF j0 \<open>i < length (loops s)\<close>] act [OF j0 aj] True li by simp
          with ne show False by simp
        qed
        with drop True old lj show ?thesis by simp
      next
        case False
        then have "processingControl w1 = processingControl (world_of s)"
          using keep fin by auto
        with old lj show ?thesis by simp
      qed
    qed
  qed
  show ?thesis
    unfolding s' singleFlight_index using A' B' by blast
qed

lemma reconcile_marker:
  "reconcile f books w initialProgress = Inr (w1, finalProgress) \<Longrightarrow>
   processingControl w1 = processingControl w"
proof (induction books arbitrary: w initialProgress)
  case Nil
  then show ?case by simp
next
  case (Cons book books)
  from updateBookStatus_result [of f w "id_arquivo book" "''ready''"]
  obtain w2 where u: "updateBookStatus f w (id_arquivo book) ''ready'' = Inr w2"
    and m: "processingControl w2 = processingControl w"
    by blast
  show ?case
    using Cons.prems Cons.IH [of w] Cons.IH [of w2] u m
    by (auto simp: Let_def split: if_splits)
qed

lemma loadBooksFromStorage_marker:
  assumes "loadBooksFromStorage f w = Inr w1"
  shows "processingControl w1 = processingControl w"
proof (cases "reconcile f (loadLibrary f w) (w\<lparr>libraryState := loadLibrary f w\<rparr>) Map.empty")
  case (Inl e)
  with assms show ?thesis by (simp add: loadBooksFromStorage_def)
next
  case (Inr res)
  obtain w2 finalProgress where res: "res = (w2, finalProgress)" by (cases res)
  have "processingControl w2 = processingControl (w\<lparr>libraryState := loadLibrary f w\<rparr>)"
    using Inr unfolding res by (rule reconcile_marker)
  moreover have "w1 = w2\<lparr>progress := finalProgress\<rparr>"
    using assms Inr res by (simp add: loadBooksFromStorage_def)
  ultimately show ?thesis by simp
qed

lemma singleFlight_world:
  "singleFlight s \<Longrightarrow> processingControl w = processingControl (world_of s) \<Longrightarrow>
   singleFlight (s\<lparr>world_of := w\<rparr>)"
  by (simp add: singleFlight_def activeLoops_def)

lemma fire_Focus_singleFlight: "singleFlight s \<Longrightarrow> singleFlight (fire s Focus)"
  by (simp add: singleFlight_world)

lemma fire_Reload_singleFlight: "singleFlight s \<Longrightarrow> singleFlight (fire s (Reload f))"
  using loadBooksFromStorage_marker [of f "world_of s"]
  by (auto simp: singleFlight_world split: sum.splits)

lemma fire_Effect_Trigger:
  "fire s Effect = s \<or> (\<exists>pendingBook. fire s Effect = fire s (Trigger pendingBook))"
  by (auto simp: startIngestion_def processBookPages_def split: option.splits)

lemma fire_Effect_singleFlight: "singleFlight s \<Longrightarrow> singleFlight (fire s Effect)"
  using fire_Effect_Trigger [of s] fire_Trigger_singleFlight [of s] by metis

lemma fire_singleFlight:
  "singleFlight s \<Longrightarrow> \<not> isRemove e \<Longrightarrow> singleFlight (fire s e)"
  by (cases e)
    (simp_all add: fire_Trigger_singleFlight fire_Advance_singleFlight fire_Focus_singleFlight
      fire_Reload_singleFlight fire_Effect_singleFlight del: fire.simps)

lemma foldl_fire_singleFlight:
  "singleFlight s \<Longrightarrow> \<forall>e \<in> set es. \<not> isRemove e \<Longrightarrow> singleFlight (foldl fire s es)"
  by (induction es arbitrary: s) (simp_all add: fire_singleFlight del: fire.simps)












lemma loadLibrary_no_throw:
  "\<not> getItem_throws f \<Longrightarrow> loadLibrary f w = loadLibrary no_faults w"
  by (simp add: loadLibrary_def no_faults_def)

lemma processPages_all_success:
  assumes env: "\<And>pc0. \<not> getItem_throws (env pc0) \<and> \<not> setItem_throws (env pc0) \<and> fs_ok (env pc0)"
    and service: "\<And>n. pageNumber \<le> n \<Longrightarrow> n \<le> total_paginas bookInfo \<Longrightarrow> service n = Sucesso (d n)"
    and present: "\<exists>b \<in> set (loadLibrary no_faults w). id_arquivo b = id_arquivo bookInfo"
    and onDisk: "book_data w (id_arquivo bookInfo) = Json pages"
  shows "\<exists>w'. processPages env service bookInfo w pageNumber
            = Inr (w', [pageNumber .. total_paginas bookInfo])
      \<and> book_data w' (id_arquivo bookInfo)
            = Json (pages @ map d [pageNumber .. total_paginas bookInfo])
      \<and> id_arquivo bookInfo \<notin> processingControl w'
      \<and> loadLibrary no_faults w'
            = map (\<lambda>book. if id_arquivo book = id_arquivo bookInfo
                           then book\<lparr>status := ''ready''\<rparr> else book)
                (loadLibrary no_faults w)"
  using service present onDisk
proof (induction "nat (total_paginas bookInfo + 1 - pageNumber)" arbitrary: pageNumber w pages)
  case 0
  then have past: "pageNumber > total_paginas bookInfo" by simp
  let ?f = "env (CycleStart pageNumber)"
  have f: "\<not> getItem_throws ?f" "\<not> setItem_throws ?f" using env by simp_all
  obtain w1 where u: "updateBookStatus ?f w (id_arquivo bookInfo) ''ready'' = Inr w1"
    and w1: "book_data w1 = book_data w"
      "library_item w1 = Json (map (\<lambda>book. if id_arquivo book = id_arquivo bookInfo
                           then book\<lparr>status := ''ready''\<rparr> else book) (loadLibrary ?f w))"
    using f by (simp add: updateBookStatus_def saveLibrary_def)
  have run: "processPages env service bookInfo w pageNumber
      = Inr (w1\<lparr>processingControl := processingControl w1 - {id_arquivo bookInfo},
                 reloadsPending := Suc (reloadsPending w1)\<rparr>, [])"
    using past u by (simp add: processPages.simps processPage_request_def)
  have nil: "[pageNumber .. total_paginas bookInfo] = []" using past by simp
  show ?case
    unfolding run nil using w1 "0.prems"(3) f
    by (simp add: loadLibrary_no_throw) (simp add: loadLibrary_def no_faults_def)
next
  case (Suc k)
  then have le: "pageNumber \<le> total_paginas bookInfo" by simp
  let ?f = "env (CycleStart pageNumber)"
  let ?g = "env (Fetching pageNumber)"
  let ?id = "id_arquivo bookInfo"
  have f: "\<not> getItem_throws ?f" using env by simp
  have g: "fs_ok ?g" using env by simp
  have req: "processPage_request ?f w bookInfo pageNumber = Inr (w, Fetching pageNumber)"
    using le Suc.prems(2) f by (simp add: processPage_request_def loadLibrary_no_throw)
  have app: "appendPageData ?g w ?id (d pageNumber)
      = Inr (w\<lparr>book_data := (book_data w)(?id := Json (pages @ [d pageNumber]))\<rparr>,
             Suc (length pages))"
    using g Suc.prems(3)
    by (simp add: appendPageData_def loadBookPages_def fs_ok_def)
  obtain w1 where resp: "processPage_response ?g w bookInfo pageNumber (service pageNumber)
      = Inr (w1, CycleStart (pageNumber + 1))"
    and file': "book_data w1 ?id = Json (pages @ [d pageNumber])"
    and item1: "library_item w1 = library_item w"
    using Suc.prems(1) [of pageNumber] le app by (simp add: processPage_response_def)
  have k: "k = nat (total_paginas bookInfo + 1 - (pageNumber + 1))" using Suc(2) by simp
  have service': "\<And>n. pageNumber + 1 \<le> n \<Longrightarrow> n \<le> total_paginas bookInfo
      \<Longrightarrow> service n = Sucesso (d n)"
    using Suc.prems(1) by simp
  have lib1: "loadLibrary no_faults w1 = loadLibrary no_faults w"
    using item1 by (simp add: loadLibrary_def)
  have present': "\<exists>b \<in> set (loadLibrary no_faults w1). id_arquivo b = ?id"
    using Suc.prems(2) unfolding lib1 .
  from Suc(1) [OF k service' present' file']
  obtain w' where rec: "processPages env service bookInfo w1 (pageNumber + 1)
            = Inr (w', [pageNumber + 1 .. total_paginas bookInfo])"
      and rest: "book_data w' ?id
            = Json ((pages @ [d pageNumber]) @ map d [pageNumber + 1 .. total_paginas bookInfo])"
        "?id \<notin> processingControl w'"
        "loadLibrary no_faults w'
            = map (\<lambda>book. if id_arquivo book = ?id then book\<lparr>status := ''ready''\<rparr> else book)
                (loadLibrary no_faults w1)"
    by blast
  have upto: "[pageNumber .. total_paginas bookInfo]
      = pageNumber # [pageNumber + 1 .. total_paginas bookInfo]"
    using le by (simp add: upto_rec1)
  have run: "processPages env service bookInfo w pageNumber
      = Inr (w', [pageNumber .. total_paginas bookInfo])"
    by (subst processPages.simps) (simp add: req resp rec upto)
  show ?case
    using run rest unfolding lib1 by (simp add: upto)
qed


text \<open>Claim C3, counterexample: page 1 of book a is on disk when its loop starts again, and
  the look at the page file fails at that moment. \<^verbatim>\<open>loadBookPages\<close> catches the error and
  returns \<^verbatim>\<open>null\<close>, the loop starts at page 1 and not at page 2, page 1 is requested again
  and its record is stored a second time.\<close>

theorem C3_counterexample:
  "book_data shelfPartial ''a'' = Json [10]
   \<and> advance (no_faults\<lparr>getInfo_throws := True\<rparr>) OtherStatus bookA shelfPartial Resuming
        = Inr (shelfPartial, CycleStart 1)
   \<and> (case ingest readFailsAtResume tens shelfPartial bookA of
         Inl e \<Rightarrow> None
       | Inr (w', requested) \<Rightarrow> Some (requested, book_data w' ''a''))
      = Some ([1, 2], Json [10, 10, 20])"
  by (simp add: ingest_def processBookPages_def startPage_def loadBookPages_def
      processPages.simps processPage_request_def processPage_response_def appendPageData_def
      updateBookStatus_def saveLibrary_def loadLibrary_def readFailsAtResume_def tens_def
      shelfPartial_def shelf_def bookA_def bookB_def no_faults_def)

text \<open>
  Claim C3, as amended. For a book whose marker is not set, \<^verbatim>\<open>processBookPages\<close> sets the
  marker and starts at the page whose number is the number of page records that
  \<^verbatim>\<open>loadBookPages\<close> returns plus 1. That is the number of records on disk plus 1 when the
  page file is read. It is 1 when the file is not read: the look at the file or the read
  throws, or the file is absent or not parseable. When the file is there, no storage or file
  system call throws during the run, the service answers every page from the start page to the
  last with its data and the book is in the library, the loop requests exactly the pages from
  the number of records on disk plus 1 to \<^verbatim>\<open>total_paginas\<close>, each once and in order, appends
  their data after the records already in the file, marks the book ready and clears the marker.
\<close>

theorem C3_resume_point:
  assumes "id_arquivo bookInfo \<notin> processingControl w"
  shows "processBookPages w bookInfo
           = (w\<lparr>processingControl := insert (id_arquivo bookInfo) (processingControl w)\<rparr>,
              Some Resuming)
     \<and> (\<forall>pages. book_data w (id_arquivo bookInfo) = Json pages \<longrightarrow>
          \<not> getInfo_throws f \<longrightarrow> \<not> readAsString_throws f \<longrightarrow>
          advance f r bookInfo w Resuming = Inr (w, CycleStart (int (length pages) + 1)))
     \<and> (getInfo_throws f \<or> readAsString_throws f
          \<or> book_data w (id_arquivo bookInfo) = Missing
          \<or> book_data w (id_arquivo bookInfo) = Malformed \<longrightarrow>
          advance f r bookInfo w Resuming = Inr (w, CycleStart 1))
     \<and> (\<forall>pages. book_data w (id_arquivo bookInfo) = Json pages \<longrightarrow>
        (\<forall>pc0. \<not> getItem_throws (env pc0) \<and> \<not> setItem_throws (env pc0) \<and> fs_ok (env pc0)) \<longrightarrow>
        (\<forall>n. int (length pages) + 1 \<le> n \<and> n \<le> total_paginas bookInfo
              \<longrightarrow> service n = Sucesso (d n)) \<longrightarrow>
        (\<exists>b \<in> set (loadLibrary no_faults w). id_arquivo b = id_arquivo bookInfo) \<longrightarrow>
        (\<exists>w'. ingest env service w bookInfo
                 = Inr (w', [int (length pages) + 1 .. total_paginas bookInfo])
           \<and> book_data w' (id_arquivo bookInfo)
                 = Json (pages @ map d [int (length pages) + 1 .. total_paginas bookInfo])
           \<and> id_arquivo bookInfo \<notin> processingControl w'
           \<and> loadLibrary no_faults w'
                 = map (\<lambda>book. if id_arquivo book = id_arquivo bookInfo
                                then book\<lparr>status := ''ready''\<rparr> else book)
                     (loadLibrary no_faults w)))"
proof -
  let ?id = "id_arquivo bookInfo"
  let ?w1 = "w\<lparr>processingControl := insert ?id (processingControl w)\<rparr>"
  have enter: "processBookPages w bookInfo = (?w1, Some Resuming)"
    using assms(1) by (simp add: processBookPages_def)
  have start: "startPage g w0 bookInfo = int (length pages) + 1"
    if "\<not> getInfo_throws g" "\<not> readAsString_throws g" "book_data w0 ?id = Json pages"
    for g pages and w0 :: "'a world"
    using that by (simp add: startPage_def loadBookPages_def)
  have resume: "\<forall>pages. book_data w ?id = Json pages \<longrightarrow>
          \<not> getInfo_throws f \<longrightarrow> \<not> readAsString_throws f \<longrightarrow>
          advance f r bookInfo w Resuming = Inr (w, CycleStart (int (length pages) + 1))"
    using start [of f w] by simp
  have unread: "getInfo_throws f \<or> readAsString_throws f
          \<or> book_data w ?id = Missing \<or> book_data w ?id = Malformed \<longrightarrow>
          advance f r bookInfo w Resuming = Inr (w, CycleStart 1)"
    by (auto simp: startPage_def loadBookPages_def split: cell.splits)
  have run: "\<exists>w'. ingest env service w bookInfo
                 = Inr (w', [int (length pages) + 1 .. total_paginas bookInfo])
           \<and> book_data w' ?id
                 = Json (pages @ map d [int (length pages) + 1 .. total_paginas bookInfo])
           \<and> ?id \<notin> processingControl w'
           \<and> loadLibrary no_faults w'
                 = map (\<lambda>book. if id_arquivo book = ?id
                                then book\<lparr>status := ''ready''\<rparr> else book)
                     (loadLibrary no_faults w)"
    if onDisk: "book_data w ?id = Json pages"
      and env: "\<forall>pc0. \<not> getItem_throws (env pc0) \<and> \<not> setItem_throws (env pc0) \<and> fs_ok (env pc0)"
      and service: "\<forall>n. int (length pages) + 1 \<le> n \<and> n \<le> total_paginas bookInfo
              \<longrightarrow> service n = Sucesso (d n)"
      and present: "\<exists>b \<in> set (loadLibrary no_faults w). id_arquivo b = ?id"
    for pages
  proof -
    have ok: "\<not> getInfo_throws (env Resuming)" "\<not> readAsString_throws (env Resuming)"
      using env by (simp_all add: fs_ok_def)
    have file1: "book_data ?w1 ?id = Json pages" using onDisk by simp
    have lib1: "loadLibrary no_faults ?w1 = loadLibrary no_faults w"
      by (simp add: loadLibrary_def)
    have present1: "\<exists>b \<in> set (loadLibrary no_faults ?w1). id_arquivo b = ?id"
      using present unfolding lib1 .
    have ing: "ingest env service w bookInfo
        = processPages env service bookInfo ?w1 (int (length pages) + 1)"
      using enter start [OF ok file1] by (simp add: ingest_def)
    from processPages_all_success [of env "int (length pages) + 1" bookInfo service d ?w1 pages]
      env service present1 file1
    show ?thesis unfolding ing lib1 by blast
  qed
  from enter resume unread run show ?thesis by blast
qed

theorem C3_witness:
  "(\<exists>w'. ingest (\<lambda>pc0. no_faults) tens shelfPartial bookA = Inr (w', [2])
      \<and> book_data w' ''a'' = Json [10, 20])
   \<and> advance no_faults OtherStatus bookB shelf Resuming = Inr (shelf, CycleStart 4)
   \<and> advance (no_faults\<lparr>readAsString_throws := True\<rparr>) OtherStatus bookB shelf Resuming
        = Inr (shelf, CycleStart 1)"
proof -
  have a: "id_arquivo bookA \<notin> processingControl shelfPartial"
    and fileA: "book_data shelfPartial (id_arquivo bookA) = Json [10]"
    by (simp_all add: shelfPartial_def shelf_def bookA_def)
  have b: "id_arquivo bookB \<notin> processingControl shelf"
    and fileB: "book_data shelf (id_arquivo bookB) = Json [7, 8, 9]"
    by (simp_all add: shelf_def bookB_def)
  have env: "\<forall>pc0. \<not> getItem_throws no_faults \<and> \<not> setItem_throws no_faults \<and> fs_ok no_faults"
    by (simp add: no_faults_def fs_ok_def)
  have service: "\<forall>n. int (length [10 :: nat]) + 1 \<le> n \<and> n \<le> total_paginas bookA
      \<longrightarrow> tens n = Sucesso (nat (10 * n))"
    by (simp add: tens_def)
  have present: "\<exists>x \<in> set (loadLibrary no_faults shelfPartial). id_arquivo x = id_arquivo bookA"
    by (simp add: loadLibrary_def shelfPartial_def shelf_def no_faults_def)
  have pagesA: "[int (length [10 :: nat]) + 1 .. total_paginas bookA] = [2]"
    by (simp add: bookA_def upto_rec1)
  from C3_resume_point [OF a, of no_faults OtherStatus "\<lambda>pc0. no_faults" tens "\<lambda>n. nat (10 * n)"]
    fileA env service present
  have "\<exists>w'. ingest (\<lambda>pc0. no_faults) tens shelfPartial bookA
                 = Inr (w', [int (length [10 :: nat]) + 1 .. total_paginas bookA])
           \<and> book_data w' (id_arquivo bookA)
                 = Json ([10] @ map (\<lambda>n. nat (10 * n))
                                  [int (length [10 :: nat]) + 1 .. total_paginas bookA])"
    by blast
  then have one: "\<exists>w'. ingest (\<lambda>pc0. no_faults) tens shelfPartial bookA = Inr (w', [2])
      \<and> book_data w' ''a'' = Json [10, 20]"
    unfolding pagesA by (simp add: bookA_def)
  from C3_resume_point [OF b, of no_faults OtherStatus "\<lambda>pc0. no_faults" tens "\<lambda>n. nat (10 * n)"]
    fileB
  have two: "advance no_faults OtherStatus bookB shelf Resuming = Inr (shelf, CycleStart 4)"
    by (simp add: no_faults_def)
  from C3_resume_point [OF b, of "no_faults\<lparr>readAsString_throws := True\<rparr>" OtherStatus
      "\<lambda>pc0. no_faults" tens "\<lambda>n. nat (10 * n)"]
  have three: "advance (no_faults\<lparr>readAsString_throws := True\<rparr>) OtherStatus bookB shelf Resuming
        = Inr (shelf, CycleStart 1)"
    by simp
  from one two three show ?thesis by blast
qed

text \<open>The call of \<^verbatim>\<open>loadBooksFromStorage\<close> that the loop starts when it ends leaves the page
  files as they are and the book ready, whatever fails while it runs.\<close>

lemma updateBookStatus_ready_keeps:
  assumes "\<forall>b \<in> set (loadLibrary no_faults w). id_arquivo b = bookId \<longrightarrow> status b = ''ready''"
    and "updateBookStatus f w other ''ready'' = Inr w1"
  shows "book_data w1 = book_data w
     \<and> (\<forall>b \<in> set (loadLibrary no_faults w1). id_arquivo b = bookId \<longrightarrow> status b = ''ready'')"
  using assms
  by (auto simp: updateBookStatus_def saveLibrary_def loadLibrary_def no_faults_def
      split: if_splits cell.splits)

lemma reconcile_ready_keeps:
  assumes "reconcile f books w initialProgress = Inr (w1, finalProgress)"
    and "\<forall>b \<in> set (loadLibrary no_faults w). id_arquivo b = bookId \<longrightarrow> status b = ''ready''"
  shows "book_data w1 = book_data w
     \<and> (\<forall>b \<in> set (loadLibrary no_faults w1). id_arquivo b = bookId \<longrightarrow> status b = ''ready'')"
  using assms
proof (induction books arbitrary: w initialProgress)
  case Nil
  then show ?case by simp
next
  case (Cons book books)
  show ?case
  proof (cases "(status book = ''processing'' \<or> status book = ''ready'')
      \<and> status book = ''processing''
      \<and> int (case loadBookPages f w (id_arquivo book) of None \<Rightarrow> 0 | Some pages \<Rightarrow> length pages)
          = total_paginas book")
    case True
    have "\<exists>w2. updateBookStatus f w (id_arquivo book) ''ready'' = Inr w2"
      by (simp add: updateBookStatus_def Let_def split: sum.split)
    then obtain w2 where u: "updateBookStatus f w (id_arquivo book) ''ready'' = Inr w2" ..
    note k = updateBookStatus_ready_keeps [OF Cons.prems(2) u]
    from Cons.prems(1) True u obtain progress1
      where "reconcile f books w2 progress1 = Inr (w1, finalProgress)"
      by (auto simp: Let_def)
    from Cons.IH [OF this] k show ?thesis by simp
  next
    case False
    with Cons.prems(1) obtain progress1
      where "reconcile f books w progress1 = Inr (w1, finalProgress)"
      by (auto simp: Let_def split: if_splits)
    from Cons.IH [OF this Cons.prems(2)] show ?thesis .
  qed
qed

lemma loadBooksFromStorage_ready_keeps:
  assumes "loadBooksFromStorage f w = Inr w1"
    and "\<forall>b \<in> set (loadLibrary no_faults w). id_arquivo b = bookId \<longrightarrow> status b = ''ready''"
  shows "book_data w1 = book_data w
     \<and> (\<forall>b \<in> set (loadLibrary no_faults w1). id_arquivo b = bookId \<longrightarrow> status b = ''ready'')"
proof (cases "reconcile f (loadLibrary f w) (w\<lparr>libraryState := loadLibrary f w\<rparr>) Map.empty")
  case (Inl e)
  with assms(1) show ?thesis by (simp add: loadBooksFromStorage_def)
next
  case (Inr res)
  obtain w2 finalProgress where res: "res = (w2, finalProgress)" by (cases res)
  have start: "\<forall>b \<in> set (loadLibrary no_faults (w\<lparr>libraryState := loadLibrary f w\<rparr>)).
      id_arquivo b = bookId \<longrightarrow> status b = ''ready''"
    using assms(2) by (simp add: loadLibrary_def)
  note k = reconcile_ready_keeps [OF Inr [unfolded res] start]
  have "w1 = w2\<lparr>progress := finalProgress\<rparr>"
    using assms(1) Inr res by (simp add: loadBooksFromStorage_def)
  with k show ?thesis by (simp add: loadLibrary_def)
qed

text \<open>A failed request and a failure to create the directory end in the \<^verbatim>\<open>catch\<close>
  block of \<^verbatim>\<open>processPage\<close>; a failed write of the page file does not.\<close>

lemma fetch_failure_is_terminal:
  assumes "r = OtherStatus \<or> r = RequestFailed \<or> makeDirectory_throws f"
    and "\<not> getItem_throws f" and "\<not> setItem_throws f"
  shows "\<exists>w1. processPage_response f w bookInfo pageNumber r = Inr (w1, Finished)
     \<and> id_arquivo bookInfo \<notin> processingControl w1
     \<and> book_data w1 = book_data w
     \<and> loadLibrary no_faults w1
          = map (\<lambda>book. if id_arquivo book = id_arquivo bookInfo
                         then book\<lparr>status := ''failed''\<rparr> else book)
              (loadLibrary no_faults w)"
  using assms
  by (cases r)
    (auto simp: processPage_response_def processPage_catch_def appendPageData_def
      updateBookStatus_def saveLibrary_def loadLibrary_def no_faults_def)

lemma write_failure_continues:
  assumes "\<not> makeDirectory_throws f" and "writeAsString_throws f"
  shows "processPage_response f w bookInfo pageNumber (Sucesso pageData)
     = Inr (w\<lparr>progress := (progress w)(id_arquivo bookInfo \<mapsto> (0, total_paginas bookInfo))\<rparr>,
            CycleStart (pageNumber + 1))"
  using assms by (simp add: processPage_response_def appendPageData_def)

text \<open>
  Claim C2, at a failing input: a book of two pages whose page file cannot be written while
  page 1 is appended. \<^verbatim>\<open>appendPageData\<close> catches the failure and returns 0, and the loop goes
  on: it requests page 2, stores it as the first record and marks the book ready. The book is
  never marked failed.
\<close>

theorem C2_write_failure_is_not_terminal:
  "(case ingest writeFailsOnPage1 tens shelf bookA of
      Inl e \<Rightarrow> None
    | Inr (w', requested) \<Rightarrow>
        Some (requested, book_data w' ''a'', map status (loadLibrary no_faults w'),
              processingControl w'))
   = Some ([1, 2], Json [20], [''ready'', ''ready''], {})"
  by (simp add: ingest_def processBookPages_def startPage_def loadBookPages_def
      processPages.simps processPage_request_def processPage_response_def appendPageData_def
      updateBookStatus_def saveLibrary_def loadLibrary_def writeFailsOnPage1_def tens_def
      shelf_def bookA_def bookB_def no_faults_def)

lemma handleRemoveBook_result:
  assumes "\<not> getItem_throws f" "\<not> setItem_throws f" "\<not> deleteAsync_throws f"
  shows "\<exists>w1. handleRemoveBook f w bookId = Inr w1
     \<and> book_data w1 = (book_data w)(bookId := Missing)
     \<and> bookId \<notin> processingControl w1
     \<and> (\<forall>b \<in> set (loadLibrary no_faults w1). id_arquivo b \<noteq> bookId)"
  using assms
  by (auto simp: handleRemoveBook_def removeBook_def saveLibrary_def loadLibrary_def
      no_faults_def Let_def split: option.splits cell.splits)

lemma request_after_removal:
  assumes "id_arquivo bookInfo \<notin> processingControl w"
    and "\<forall>b \<in> set (loadLibrary no_faults w). id_arquivo b \<noteq> id_arquivo bookInfo"
  shows "\<exists>w2. processPage_request g w bookInfo pageNumber = Inr (w2, Finished)
     \<and> book_data w2 = book_data w
     \<and> id_arquivo bookInfo \<notin> processingControl w2"
proof -
  have "\<forall>b \<in> set (loadLibrary g w). id_arquivo b \<noteq> id_arquivo bookInfo"
    using assms(2) loadLibrary_subset [of g w] by blast
  then show ?thesis
    using assms(1) updateBookStatus_result [of g w "id_arquivo bookInfo" "''ready''"]
    by (auto simp: processPage_request_def)
qed

lemma processPages_after_removal:
  assumes "id_arquivo bookInfo \<notin> processingControl w"
    and "\<forall>b \<in> set (loadLibrary no_faults w). id_arquivo b \<noteq> id_arquivo bookInfo"
  shows "\<exists>w2. processPages env service bookInfo w pageNumber = Inr (w2, [])
     \<and> book_data w2 = book_data w
     \<and> id_arquivo bookInfo \<notin> processingControl w2"
  using request_after_removal [OF assms, of "env (CycleStart pageNumber)" pageNumber]
  by (subst processPages.simps) auto

lemma response_after_removal:
  assumes "id_arquivo bookInfo \<notin> processingControl w"
    and "\<forall>b \<in> set (loadLibrary no_faults w). id_arquivo b \<noteq> id_arquivo bookInfo"
    and "book_data w (id_arquivo bookInfo) = Missing"
  shows "\<exists>w2 pc2. processPage_response g w bookInfo pageNumber r = Inr (w2, pc2)
     \<and> id_arquivo bookInfo \<notin> processingControl w2
     \<and> (\<forall>b \<in> set (loadLibrary no_faults w2). id_arquivo b \<noteq> id_arquivo bookInfo)
     \<and> (book_data w2 = book_data w
        \<or> (\<exists>pageData. r = Sucesso pageData
              \<and> book_data w2 = (book_data w)(id_arquivo bookInfo := Json [pageData])))
     \<and> (pc2 = Finished \<or> pc2 = CycleStart (pageNumber + 1))"
proof -
  have gone: "\<forall>b \<in> set (loadLibrary g w). id_arquivo b \<noteq> id_arquivo bookInfo"
    using assms(2) loadLibrary_subset [of g w] by blast
  have catch: "\<exists>w2. processPage_catch g w bookInfo = Inr (w2, Finished)
      \<and> id_arquivo bookInfo \<notin> processingControl w2
      \<and> (\<forall>b \<in> set (loadLibrary no_faults w2). id_arquivo b \<noteq> id_arquivo bookInfo)
      \<and> book_data w2 = book_data w"
    using assms(1,2) gone
    by (auto simp: processPage_catch_def updateBookStatus_def saveLibrary_def loadLibrary_def
        no_faults_def split: cell.splits if_splits)
  show ?thesis
  proof (cases r)
    case (Sucesso pageData)
    show ?thesis
    proof (cases "makeDirectory_throws g")
      case True
      then show ?thesis
        using catch Sucesso by (auto simp: processPage_response_def appendPageData_def)
    next
      case False
      then show ?thesis
        using Sucesso assms
        by (auto simp: processPage_response_def appendPageData_def loadBookPages_def
            loadLibrary_def Let_def)
    qed
  next
    case OtherStatus
    then show ?thesis using catch by (auto simp: processPage_response_def)
  next
    case RequestFailed
    then show ?thesis using catch by (auto simp: processPage_response_def)
  qed
qed


text \<open>
  Claim C5, as amended. After a removal that succeeded the book's page file is gone and its
  marker is not set. A loop of that book found between two pages then ends at its check of the
  library: it requests no page, writes nothing to the page file and leaves the marker unset. A
  loop found waiting for a page finishes that cycle first: if the page arrives it is appended,
  which creates the page file again with that one record, and otherwise nothing is written;
  after this cycle the loop ends in the same way, with no further request and no further write,
  and the marker is not set at any of these points.
\<close>

theorem C5_removal_stops_loop:
  assumes "\<not> getItem_throws f" and "\<not> setItem_throws f" and "\<not> deleteAsync_throws f"
  shows "\<exists>w1. handleRemoveBook f w (id_arquivo bookInfo) = Inr w1
     \<and> book_data w1 (id_arquivo bookInfo) = Missing
     \<and> id_arquivo bookInfo \<notin> processingControl w1
     \<and> (\<exists>w2. processPages env service bookInfo w1 pageNumber = Inr (w2, [])
           \<and> book_data w2 = book_data w1
           \<and> id_arquivo bookInfo \<notin> processingControl w2)
     \<and> (\<exists>w2 pc2. processPage_response g w1 bookInfo pageNumber r = Inr (w2, pc2)
           \<and> id_arquivo bookInfo \<notin> processingControl w2
           \<and> (book_data w2 = book_data w1
              \<or> (\<exists>pageData. r = Sucesso pageData
                    \<and> book_data w2 = (book_data w1)(id_arquivo bookInfo := Json [pageData])))
           \<and> (pc2 = Finished
              \<or> (pc2 = CycleStart (pageNumber + 1)
                  \<and> (\<exists>w3. processPages env service bookInfo w2 (pageNumber + 1) = Inr (w3, [])
                        \<and> book_data w3 = book_data w2
                        \<and> id_arquivo bookInfo \<notin> processingControl w3))))"
proof -
  let ?id = "id_arquivo bookInfo"
  from handleRemoveBook_result [OF assms, of w ?id]
  obtain w1 where rm: "handleRemoveBook f w ?id = Inr w1"
    and file1: "book_data w1 ?id = Missing"
    and unmarked: "?id \<notin> processingControl w1"
    and gone: "\<forall>b \<in> set (loadLibrary no_faults w1). id_arquivo b \<noteq> ?id"
    by auto
  note between = processPages_after_removal [OF unmarked gone, of env service pageNumber]
  from response_after_removal [OF unmarked gone file1, of g pageNumber r]
  obtain w2 pc2 where resp: "processPage_response g w1 bookInfo pageNumber r = Inr (w2, pc2)"
    and unmarked2: "?id \<notin> processingControl w2"
    and gone2: "\<forall>b \<in> set (loadLibrary no_faults w2). id_arquivo b \<noteq> ?id"
    and file2: "book_data w2 = book_data w1
        \<or> (\<exists>pageData. r = Sucesso pageData
              \<and> book_data w2 = (book_data w1)(?id := Json [pageData]))"
    and pc2: "pc2 = Finished \<or> pc2 = CycleStart (pageNumber + 1)"
    by blast
  note after = processPages_after_removal [OF unmarked2 gone2, of env service "pageNumber + 1"]
  have mid: "\<exists>w2 pc2. processPage_response g w1 bookInfo pageNumber r = Inr (w2, pc2)
           \<and> ?id \<notin> processingControl w2
           \<and> (book_data w2 = book_data w1
              \<or> (\<exists>pageData. r = Sucesso pageData
                    \<and> book_data w2 = (book_data w1)(?id := Json [pageData])))
           \<and> (pc2 = Finished
              \<or> (pc2 = CycleStart (pageNumber + 1)
                  \<and> (\<exists>w3. processPages env service bookInfo w2 (pageNumber + 1) = Inr (w3, [])
                        \<and> book_data w3 = book_data w2
                        \<and> ?id \<notin> processingControl w3)))"
    using resp unmarked2 file2 pc2 after by blast
  from rm file1 unmarked between mid show ?thesis by blast
qed

theorem C5_witness:
  "\<exists>w1. handleRemoveBook no_faults shelfBusy ''a'' = Inr w1
     \<and> book_data w1 ''a'' = Missing
     \<and> ''a'' \<notin> processingControl w1
     \<and> (\<exists>w2. processPages (\<lambda>pc0. no_faults) tens bookA w1 2 = Inr (w2, [])
           \<and> book_data w2 ''a'' = Missing
           \<and> ''a'' \<notin> processingControl w2)"
proof -
  have nf: "\<not> getItem_throws no_faults" "\<not> setItem_throws no_faults"
    "\<not> deleteAsync_throws no_faults"
    by (simp_all add: no_faults_def)
  have a: "id_arquivo bookA = ''a''" by (simp add: bookA_def)
  from C5_removal_stops_loop [OF nf, of shelfBusy bookA "\<lambda>pc0. no_faults" tens 2 no_faults
      OtherStatus]
  show ?thesis unfolding a by metis
qed

text \<open>Claim C5, counterexample: a loop is waiting for page 1 when its book is removed; the page
  that arrives afterwards is written to the page file of the removed book.\<close>

theorem C5_counterexample:
  "loops (foldl fire \<lparr>world_of = shelf, loops = []\<rparr>
      [Trigger bookA, Advance 0 no_faults OtherStatus, Advance 0 no_faults OtherStatus])
     = [(bookA, Fetching 1)]
   \<and> book_data (world_of (foldl fire \<lparr>world_of = shelf, loops = []\<rparr>
      [Trigger bookA, Advance 0 no_faults OtherStatus, Advance 0 no_faults OtherStatus,
       Remove no_faults ''a''])) ''a'' = Missing
   \<and> book_data (world_of (foldl fire \<lparr>world_of = shelf, loops = []\<rparr>
      [Trigger bookA, Advance 0 no_faults OtherStatus, Advance 0 no_faults OtherStatus,
       Remove no_faults ''a'', Advance 0 no_faults (Sucesso 10)])) ''a'' = Json [10]"
  by (simp add: processBookPages_def startPage_def loadBookPages_def
      processPage_request_def processPage_response_def appendPageData_def
      handleRemoveBook_def removeBook_def
      updateBookStatus_def saveLibrary_def loadLibrary_def
      shelf_def bookA_def bookB_def no_faults_def)

section \<open>Properties of the player\<close>

lemma request_deferred:
  "isPageLoading p \<or> navLock p \<Longrightarrow>
   nav_step p (Request now args) = p\<lparr>pendingNavTimeout := Some (now + 150, args)\<rparr>"
  by (simp add: throttledGoTo_def schedule_def)

lemma pending_runs_unlocked:
  assumes "pendingNavTimeout p = Some (due, args)" and "due \<le> now" and "\<not> navLock p"
  shows "navLock (nav_step p (PendingTimeout now))
     \<and> pendingNavTimeout (nav_step p (PendingTimeout now)) = None
     \<and> currentPageIndex (nav_step p (PendingTimeout now))
          = (if absolute args then deltaOrIndex args else currentPageIndex p + deltaOrIndex args)"
  using assms by (simp add: safeGoTo_def)

lemma pending_runs_locked:
  assumes "pendingNavTimeout p = Some (due, args)" and "due \<le> now" and "navLock p"
  shows "nav_step p (PendingTimeout now) = p\<lparr>pendingNavTimeout := None, lastPageChangeAt := now\<rparr>"
  using assms by (simp add: safeGoTo_def)

lemma nav_step_locked:
  assumes "navLock p" and "\<not> isLockTimeout e"
  shows "navLock (nav_step p e) \<and> currentPageIndex (nav_step p e) = currentPageIndex p
     \<and> lockTimeouts (nav_step p e) = lockTimeouts p"
  using assms
  by (cases e) (auto simp: throttledGoTo_def schedule_def safeGoTo_def split: option.splits)

lemma nav_locked_window:
  assumes "navLock p" and "\<forall>e \<in> set es. \<not> isLockTimeout e"
  shows "navLock (foldl nav_step p es)
     \<and> currentPageIndex (foldl nav_step p es) = currentPageIndex p
     \<and> lockTimeouts (foldl nav_step p es) = lockTimeouts p"
  using assms
proof (induction es arbitrary: p)
  case Nil
  then show ?case by simp
next
  case (Cons e es)
  from Cons.prems have e: "\<not> isLockTimeout e" and es: "\<forall>e \<in> set es. \<not> isLockTimeout e"
    by simp_all
  note step = nav_step_locked [OF Cons.prems(1) e]
  from Cons.IH [of "nav_step p e"] step es show ?case by (simp del: nav_step.simps)
qed

lemma nav_one_commit:
  assumes "\<forall>e \<in> set es. \<not> isLockTimeout e"
  shows "length (lockTimeouts (foldl nav_step p es)) \<le> Suc (length (lockTimeouts p))"
  using assms
proof (induction es arbitrary: p)
  case Nil
  then show ?case by simp
next
  case (Cons e es)
  from Cons.prems have e: "\<not> isLockTimeout e" and es: "\<forall>e \<in> set es. \<not> isLockTimeout e"
    by simp_all
  show ?case
  proof (cases "navLock (nav_step p e)")
    case True
    have "length (lockTimeouts (nav_step p e)) \<le> Suc (length (lockTimeouts p))"
      using e
      by (cases e) (auto simp: throttledGoTo_def schedule_def safeGoTo_def Let_def
          split: option.splits if_splits)
    moreover have "lockTimeouts (foldl nav_step (nav_step p e) es) = lockTimeouts (nav_step p e)"
      using nav_locked_window [OF True es] by simp
    ultimately show ?thesis by (simp del: nav_step.simps)
  next
    case False
    have "lockTimeouts (nav_step p e) = lockTimeouts p"
      using e False
      by (cases e) (auto simp: throttledGoTo_def schedule_def safeGoTo_def Let_def
          split: option.splits if_splits)
    with Cons.IH [OF es, of "nav_step p e"] show ?thesis by (simp del: nav_step.simps)
  qed
qed

text \<open>Claim C6, counterexample: a tap 100 ms after a page change, with the page already laid
  out. The request is deferred to 1250 ms, runs while the lock of the first change is still
  held, and is lost: after the lock is released the player is on page 1 with nothing pending.\<close>

theorem C6_counterexample:
  "currentPageIndex (foldl nav_step player0
      [Request 1000 nextPage, PageLoaded, Request 1100 nextPage]) = 1
   \<and> pendingNavTimeout (foldl nav_step player0
      [Request 1000 nextPage, PageLoaded, Request 1100 nextPage]) = Some (1250, nextPage)
   \<and> foldl nav_step player0
      [Request 1000 nextPage, PageLoaded, Request 1100 nextPage, PendingTimeout 1250,
       LockTimeout 1900]
     = player0\<lparr>currentPageIndex := 1, lastPageChangeAt := 1250\<rparr>"
  by (simp add: throttledGoTo_def schedule_def safeGoTo_def player0_def nextPage_def
      MIN_PAGE_CHANGE_INTERVAL_def)


text \<open>
  Claim C6, as amended. A request that arrives while a page is loading or the lock is held
  changes nothing but the pending timeout: it replaces whatever was pending by itself, due
  150 ms later. When the pending timeout runs, its request goes to \<^verbatim>\<open>safeGoTo\<close>: with the lock
  free the page changes to the target of that request and the lock is taken; with the lock held
  the request is discarded. Every committed page change adds one lock timeout, and between two
  lock timeouts at most one is added; while the lock is held, no sequence of requests and
  pending timeouts changes the page.
\<close>

theorem C6_navigation_throttle:
  "(isPageLoading p \<or> navLock p \<longrightarrow>
      nav_step p (Request now args) = p\<lparr>pendingNavTimeout := Some (now + 150, args)\<rparr>)
   \<and> (pendingNavTimeout p = Some (due, args) \<and> due \<le> now \<longrightarrow>
        (navLock p \<longrightarrow>
           nav_step p (PendingTimeout now)
             = p\<lparr>pendingNavTimeout := None, lastPageChangeAt := now\<rparr>)
      \<and> (\<not> navLock p \<longrightarrow>
           navLock (nav_step p (PendingTimeout now))
         \<and> pendingNavTimeout (nav_step p (PendingTimeout now)) = None
         \<and> currentPageIndex (nav_step p (PendingTimeout now))
              = (if absolute args then deltaOrIndex args
                 else currentPageIndex p + deltaOrIndex args)))
   \<and> ((\<forall>e \<in> set es. \<not> isLockTimeout e) \<longrightarrow>
        length (lockTimeouts (foldl nav_step p es)) \<le> Suc (length (lockTimeouts p))
      \<and> (navLock p \<longrightarrow>
           navLock (foldl nav_step p es)
         \<and> currentPageIndex (foldl nav_step p es) = currentPageIndex p
         \<and> lockTimeouts (foldl nav_step p es) = lockTimeouts p))"
  using request_deferred [of p now args]
    pending_runs_locked [of p due args now]
    pending_runs_unlocked [of p due args now]
    nav_one_commit [of es p]
    nav_locked_window [of p es]
  by blast

theorem C6_witness:
  "nav_step playerAfterChange (Request 1100 nextPage)
     = playerAfterChange\<lparr>pendingNavTimeout := Some (1250, nextPage)\<rparr>
   \<and> nav_step (playerAfterChange\<lparr>pendingNavTimeout := Some (1250, nextPage)\<rparr>)
        (PendingTimeout 1250)
     = playerAfterChange\<lparr>pendingNavTimeout := None, lastPageChangeAt := 1250\<rparr>
   \<and> currentPageIndex (nav_step (player0\<lparr>pendingNavTimeout := Some (1250, nextPage)\<rparr>)
        (PendingTimeout 1250)) = 1
   \<and> currentPageIndex (foldl nav_step playerAfterChange
        [Request 1100 nextPage, PendingTimeout 1250, Request 1300 nextPage]) = 1"
proof -
  have locked: "navLock playerAfterChange" and page: "currentPageIndex playerAfterChange = 1"
    by (simp_all add: playerAfterChange_def throttledGoTo_def safeGoTo_def player0_def
        nextPage_def MIN_PAGE_CHANGE_INTERVAL_def)
  have unlocked: "\<not> navLock (player0\<lparr>pendingNavTimeout := Some (1250, nextPage)\<rparr>)"
    by (simp add: player0_def)
  have es: "\<forall>e \<in> set [Request 1100 nextPage, PendingTimeout 1250, Request 1300 nextPage].
      \<not> isLockTimeout e"
    by simp
  from C6_navigation_throttle [of playerAfterChange 1100 nextPage 0
      "[Request 1100 nextPage, PendingTimeout 1250, Request 1300 nextPage]"] locked es page
  have one: "nav_step playerAfterChange (Request 1100 nextPage)
     = playerAfterChange\<lparr>pendingNavTimeout := Some (1250, nextPage)\<rparr>"
    and four: "currentPageIndex (foldl nav_step playerAfterChange
        [Request 1100 nextPage, PendingTimeout 1250, Request 1300 nextPage]) = 1"
    by (simp_all del: nav_step.simps foldl_Cons foldl_Nil)
  from C6_navigation_throttle [of "playerAfterChange\<lparr>pendingNavTimeout := Some (1250, nextPage)\<rparr>"
      1250 nextPage 1250 "[]"] locked
  have two: "nav_step (playerAfterChange\<lparr>pendingNavTimeout := Some (1250, nextPage)\<rparr>)
        (PendingTimeout 1250)
     = playerAfterChange\<lparr>pendingNavTimeout := None, lastPageChangeAt := 1250\<rparr>"
    by (simp del: nav_step.simps)
  from C6_navigation_throttle [of "player0\<lparr>pendingNavTimeout := Some (1250, nextPage)\<rparr>"
      1250 nextPage 1250 "[]"] unlocked
  have three: "currentPageIndex (nav_step (player0\<lparr>pendingNavTimeout := Some (1250, nextPage)\<rparr>)
        (PendingTimeout 1250)) = 1"
    by (simp add: player0_def nextPage_def del: nav_step.simps)
  from one two three four show ?thesis by blast
qed

lemma length_splitWs: "length (splitWs s) = Suc (countMatches s)"
proof (induction s rule: splitWs.induct)
  case 1
  show ?case by simp
next
  case (2 c cs)
  show ?case
  proof (cases "isWhiteSpace c")
    case True
    with 2(1) show ?thesis by simp
  next
    case False
    with 2(2) show ?thesis by (cases "splitWs cs") simp_all
  qed
qed

lemma countMatches_tokens: "countMatches s = length (splitWs s) - 1"
  by (simp add: length_splitWs)

text \<open>
  Claim C8. When speech starts at word index \<open>k \<ge> 0\<close> of a page text, the spoken segment is
  the words from index \<open>k\<close> on joined by single spaces, and for every character offset reported
  on a boundary event the word index derived is \<open>k\<close> plus the number of white-space-delimited
  tokens of the segment fully consumed before that offset.
\<close>

theorem C8_word_index:
  assumes "0 \<le> k" and "startSpeech textToSpeak k = Some u"
  shows "textSegment u = joinSpace (drop (nat k) (splitWs textToSpeak))
     \<and> speechStartIndex u = k
     \<and> onBoundary u (Some offset)
          = Some (k + int (tokensConsumed (textSegment u) (nat offset)))"
  using assms
  by (auto simp: startSpeech_def onBoundary_def tokensConsumed_def countMatches_tokens Let_def
      split: if_splits)

theorem C8_witness:
  "startSpeech [97, 98, 32, 32, 99, 100, 32, 101, 102] 1
     = Some \<lparr>textSegment = [99, 100, 32, 101, 102], speechStartIndex = 1\<rparr>
   \<and> onBoundary \<lparr>textSegment = [99, 100, 32, 101, 102], speechStartIndex = 1\<rparr> (Some 3)
     = Some 2"
proof -
  have start: "startSpeech [97, 98, 32, 32, 99, 100, 32, 101, 102] 1
     = Some \<lparr>textSegment = [99, 100, 32, 101, 102], speechStartIndex = 1\<rparr>"
    by (simp add: startSpeech_def trim_def isWhiteSpace_def)
  have tokens: "tokensConsumed [99, 100, 32, 101, 102] (nat 3) = 1"
    by (simp add: tokensConsumed_def isWhiteSpace_def)
  have k: "(0::int) \<le> 1" by simp
  from C8_word_index [OF k start, of 3] tokens start show ?thesis by simp
qed


lemma splitWs_nonempty: "splitWs s \<noteq> []"
  using length_splitWs [of s] by auto

lemma splitWs_no_space_all: "\<forall>w \<in> set (splitWs s). \<forall>c \<in> set w. \<not> isWhiteSpace c"
proof (induction s rule: splitWs.induct)
  case 1
  then show ?case by simp
next
  case (2 d ds)
  show ?case
  proof (cases "isWhiteSpace d")
    case True
    with 2(1) show ?thesis by simp
  next
    case False
    obtain v vs where sp: "splitWs ds = v # vs"
      using splitWs_nonempty [of ds] by (cases "splitWs ds") auto
    from 2(2) [OF False] have "\<forall>w \<in> set (v # vs). \<forall>c \<in> set w. \<not> isWhiteSpace c"
      unfolding sp .
    with False sp show ?thesis by auto
  qed
qed

lemma splitWs_no_space: "w \<in> set (splitWs s) \<Longrightarrow> c \<in> set w \<Longrightarrow> \<not> isWhiteSpace c"
  using splitWs_no_space_all by blast

lemma splitWs_first_nonempty: "\<not> isWhiteSpace c \<Longrightarrow> splitWs (c # cs) ! 0 \<noteq> []"
  using splitWs_nonempty [of cs] by (cases "splitWs cs") auto

lemma splitWs_middle_nonempty:
  "0 < i \<Longrightarrow> Suc i < length (splitWs s) \<Longrightarrow> splitWs s ! i \<noteq> []"
proof (induction s arbitrary: i rule: splitWs.induct)
  case 1
  then show ?case by simp
next
  case (2 d ds)
  show ?case
  proof (cases "isWhiteSpace d")
    case True
    let ?r = "dropWhile isWhiteSpace ds"
    from 2(3) obtain i' where i: "i = Suc i'" by (cases i) auto
    from 2(4) True i have len: "Suc i' < length (splitWs ?r)" by simp
    have "splitWs ?r ! i' \<noteq> []"
    proof (cases i')
      case 0
      from len have "?r \<noteq> []" by (cases ?r) auto
      then obtain e es where r: "?r = e # es" by (cases ?r) auto
      have "\<not> isWhiteSpace e"
        using hd_dropWhile [of isWhiteSpace ds] r by auto
      then show ?thesis unfolding 0 r by (rule splitWs_first_nonempty)
    next
      case (Suc m)
      with 2(1) [OF True, of i'] len show ?thesis by simp
    qed
    with True i show ?thesis by simp
  next
    case False
    obtain v vs where sp: "splitWs ds = v # vs"
      using splitWs_nonempty [of ds] by (cases "splitWs ds") auto
    from 2(3) obtain i' where i: "i = Suc i'" by (cases i) auto
    from 2(2) [OF False, of i] 2(3,4) False sp i show ?thesis by simp
  qed
qed

lemma countMatches_skip_word:
  "\<forall>c \<in> set w. \<not> isWhiteSpace c \<Longrightarrow> countMatches (w @ r) = countMatches r"
  by (induction w) simp_all

lemma countMatches_words:
  assumes "\<forall>w \<in> set vs. \<forall>c \<in> set w. \<not> isWhiteSpace c"
    and "\<forall>i. 0 < i \<and> i < length vs \<longrightarrow> vs ! i \<noteq> []"
  shows "countMatches (concat (map (\<lambda>w. w @ [32]) vs)) = length vs"
  using assms
proof (induction vs)
  case Nil
  show ?case by simp
next
  case (Cons v vs)
  let ?r = "concat (map (\<lambda>w. w @ [32]) vs)"
  have v: "\<forall>c \<in> set v. \<not> isWhiteSpace c" using Cons.prems(1) by simp
  have sp: "isWhiteSpace 32" by (simp add: isWhiteSpace_def)
  have keep: "dropWhile isWhiteSpace ?r = ?r"
  proof (cases vs)
    case Nil
    then show ?thesis by simp
  next
    case (Cons v' vs')
    have "v' \<noteq> []" using Cons.prems(2) [rule_format, of 1] Cons by simp
    then obtain c cs where v': "v' = c # cs" by (cases v') auto
    have "\<not> isWhiteSpace c" using Cons.prems(1) Cons v' by simp
    then show ?thesis using Cons v' by simp
  qed
  have rest: "countMatches ?r = length vs"
  proof (rule Cons.IH)
    show "\<forall>w \<in> set vs. \<forall>c \<in> set w. \<not> isWhiteSpace c" using Cons.prems(1) by simp
    show "\<forall>i. 0 < i \<and> i < length vs \<longrightarrow> vs ! i \<noteq> []"
      using Cons.prems(2) [rule_format, of "Suc i" for i] by auto
  qed
  have "countMatches (concat (map (\<lambda>w. w @ [32]) (v # vs))) = countMatches (32 # ?r)"
    using countMatches_skip_word [OF v, of "32 # ?r"] by simp
  also have "\<dots> = Suc (countMatches ?r)" using sp keep by simp
  finally show ?case using rest by simp
qed

lemma take_joinSpace:
  "j < length ws \<Longrightarrow>
   take (sum_list (map (\<lambda>w. Suc (length w)) (take j ws))) (joinSpace ws)
     = concat (map (\<lambda>w. w @ [32]) (take j ws))"
proof (induction ws arbitrary: j rule: joinSpace.induct)
  case 1
  then show ?case by simp
next
  case (2 w)
  then show ?case by simp
next
  case (3 w v ws)
  show ?case
  proof (cases j)
    case 0
    then show ?thesis by simp
  next
    case (Suc j')
    with 3 show ?thesis by simp
  qed
qed

text \<open>
  At the offset where the \<open>j\<close>-th word of the segment starts, the index derived is \<open>k + j\<close>:
  the index of that word among the words of the page text.
\<close>

lemma onBoundary_at_word_start:
  assumes "0 \<le> k" and "startSpeech textToSpeak k = Some u"
    and "nat k + j < length (splitWs textToSpeak)"
  shows "onBoundary u
           (Some (int (sum_list (map (\<lambda>w. Suc (length w))
                     (take j (drop (nat k) (splitWs textToSpeak)))))))
         = Some (k + int j)"
proof -
  let ?words = "splitWs textToSpeak"
  let ?ws = "drop (nat k) ?words"
  let ?vs = "take j ?ws"
  have seg: "textSegment u = joinSpace ?ws" and st: "speechStartIndex u = k"
    using assms(1,2) by (auto simp: startSpeech_def Let_def split: if_splits)
  have j: "j < length ?ws" using assms(3) by simp
  have len: "length ?vs = j" using j by simp
  have nth: "\<And>i. i < j \<Longrightarrow> ?vs ! i = ?words ! (nat k + i)"
    using j by simp
  have nospace: "\<forall>w \<in> set ?vs. \<forall>c \<in> set w. \<not> isWhiteSpace c"
    using splitWs_no_space [of _ textToSpeak]
    by (meson in_set_dropD in_set_takeD)
  have middle: "\<forall>i. 0 < i \<and> i < length ?vs \<longrightarrow> ?vs ! i \<noteq> []"
  proof (intro allI impI)
    fix i assume i: "0 < i \<and> i < length ?vs"
    then have "i < j" using len by simp
    moreover have "?words ! (nat k + i) \<noteq> []"
      using i len assms(3) by (intro splitWs_middle_nonempty) simp_all
    ultimately show "?vs ! i \<noteq> []" using nth by simp
  qed
  have "countMatches (take (sum_list (map (\<lambda>w. Suc (length w)) ?vs)) (joinSpace ?ws)) = j"
    using take_joinSpace [OF j] countMatches_words [OF nospace middle] len by simp
  then show ?thesis
    using seg st by (simp add: onBoundary_def)
qed

section \<open>Properties of the page fit\<close>

lemma roundTiesToEven_error: "\<bar>of_int (roundTiesToEven y) - y\<bar> \<le> 1 / 2"
  unfolding roundTiesToEven_def Let_def by (auto; linarith)

lemma binade_le: "x \<noteq> 0 \<Longrightarrow> 2 powr of_int (binade x) \<le> \<bar>x\<bar>"
  unfolding binade_def by (subst le_log_iff [symmetric]) simp_all

lemma unitRoundoff_bounds: "0 < unitRoundoff" "unitRoundoff < 1"
  by (simp_all add: unitRoundoff_def)

text \<open>The rounding error: half a unit in the last place, which is at most \<open>unitRoundoff\<close> times
  the magnitude for a result in the normal range and at most \<open>2 powr (- 1075)\<close> below it.\<close>

lemma binade_normal:
  assumes "1 / 2 ^ 1022 \<le> \<bar>x\<bar>"
  shows "- 1022 \<le> binade x"
proof -
  have pos: "0 < \<bar>x\<bar>" using assms by (rule less_le_trans [rotated]) simp
  have "2 powr of_int (- 1022) \<le> \<bar>x\<bar>"
    using assms by (simp add: powr_minus divide_simps)
  then have "of_int (- 1022) \<le> log 2 \<bar>x\<bar>"
    using pos by (subst le_log_iff) simp_all
  then show ?thesis unfolding binade_def by (simp only: le_floor_iff)
qed

lemma binade_subnormal:
  assumes "x \<noteq> 0" and "\<bar>x\<bar> < 1 / 2 ^ 1022"
  shows "binade x < - 1022"
proof -
  have pos: "0 < \<bar>x\<bar>" using assms(1) by simp
  have "\<bar>x\<bar> < 2 powr of_int (- 1022)"
    using assms(2) by (simp add: powr_minus divide_simps)
  then have "log 2 \<bar>x\<bar> < of_int (- 1022)"
    using pos by (subst log_less_iff) simp_all
  then show ?thesis unfolding binade_def by (simp only: floor_less_iff)
qed

lemma nearest_gap: "\<bar>nearest x - x\<bar> \<le> 2 powr of_int (quantum x) / 2"
proof (cases "x = 0")
  case True
  then show ?thesis by (simp add: nearest_def)
next
  case False
  define s :: real where "s = 2 powr of_int (quantum x)"
  have s: "0 < s" by (simp add: s_def)
  have "\<bar>nearest x - x\<bar> = \<bar>of_int (roundTiesToEven (x / s)) - x / s\<bar> * s"
  proof -
    have "nearest x - x = (of_int (roundTiesToEven (x / s)) - x / s) * s"
      using False s by (simp add: nearest_def s_def field_simps)
    then show ?thesis using s by (simp add: abs_mult)
  qed
  also have "\<dots> \<le> (1 / 2) * s"
    using roundTiesToEven_error [of "x / s"] s by (intro mult_right_mono) simp_all
  finally show ?thesis by (simp add: s_def)
qed

lemma nearest_error_normal:
  assumes "1 / 2 ^ 1022 \<le> \<bar>x\<bar>"
  shows "\<bar>nearest x - x\<bar> \<le> unitRoundoff * \<bar>x\<bar>"
proof -
  have nz: "x \<noteq> 0" using assms by auto
  have q: "quantum x = binade x - 52"
    using binade_normal [OF assms] by (simp add: quantum_def)
  have "\<bar>nearest x - x\<bar> \<le> 2 powr of_int (binade x - 52) / 2"
    using nearest_gap [of x] unfolding q .
  also have "\<dots> = 2 powr of_int (binade x) / 2 ^ 53"
    by (simp add: powr_diff)
  also have "\<dots> \<le> \<bar>x\<bar> / 2 ^ 53"
    using binade_le [OF nz] by (intro divide_right_mono) simp_all
  finally show ?thesis by (simp add: unitRoundoff_def)
qed

lemma nearest_error_subnormal:
  assumes "\<bar>x\<bar> < 1 / 2 ^ 1022"
  shows "\<bar>nearest x - x\<bar> \<le> 1 / 2 ^ 1075"
proof (cases "x = 0")
  case True
  then show ?thesis by (simp add: nearest_def)
next
  case False
  have q: "quantum x = - 1074"
    using binade_subnormal [OF False assms] by (simp add: quantum_def)
  have "\<bar>nearest x - x\<bar> \<le> 2 powr of_int (- 1074) / 2"
    using nearest_gap [of x] unfolding q .
  also have "\<dots> = 1 / 2 ^ 1075"
    by (simp add: powr_minus divide_simps)
  finally show ?thesis .
qed

lemma nearest_error: "\<bar>nearest x - x\<bar> \<le> unitRoundoff * \<bar>x\<bar> + 1 / 2 ^ 1075"
proof (cases "1 / 2 ^ 1022 \<le> \<bar>x\<bar>")
  case True
  from nearest_error_normal [OF True] show ?thesis
    by (rule order_trans) simp
next
  case False
  then have "\<bar>x\<bar> < 1 / 2 ^ 1022" by simp
  from nearest_error_subnormal [OF this] show ?thesis
    by (rule order_trans) (simp add: unitRoundoff_def)
qed

text \<open>No overflow for a result of magnitude up to \<open>2 ^ 1023\<close>.\<close>

lemma double_finite:
  assumes "\<bar>x\<bar> \<le> 2 ^ 1023"
  shows "double x = Finite (nearest x)"
proof -
  have "\<bar>nearest x\<bar> \<le> \<bar>nearest x - x\<bar> + \<bar>x\<bar>" by simp
  also have "\<dots> \<le> unitRoundoff * \<bar>x\<bar> + 1 / 2 ^ 1075 + \<bar>x\<bar>"
    using nearest_error [of x] by simp
  also have "\<dots> \<le> (1 / 2) * \<bar>x\<bar> + 1 + \<bar>x\<bar>"
    by (intro add_mono mult_right_mono) (simp_all add: unitRoundoff_def divide_simps)
  also have "\<dots> \<le> (1 / 2) * 2 ^ 1023 + 1 + 2 ^ 1023" using assms by simp
  also have "\<dots> < 2 ^ 1024" by simp
  finally have "\<bar>nearest x\<bar> < 2 ^ 1024" .
  then have "\<not> 2 ^ 1024 \<le> nearest x" and "\<not> nearest x \<le> - (2 ^ 1024)"
    by (simp_all only: abs_less_iff not_le) linarith+
  then show ?thesis by (simp only: double_def Let_def if_False)
qed


lemma nearest_pos_bounds:
  assumes "1 / 2 ^ 1022 \<le> x"
  shows "x * (1 - unitRoundoff) \<le> nearest x" and "nearest x \<le> x * (1 + unitRoundoff)"
    and "0 < nearest x"
proof -
  have pos: "0 < x" using assms by (rule less_le_trans [rotated]) simp
  then have n: "1 / 2 ^ 1022 \<le> \<bar>x\<bar>" using assms by simp
  from nearest_error_normal [OF n] pos
  show lo: "x * (1 - unitRoundoff) \<le> nearest x" and "nearest x \<le> x * (1 + unitRoundoff)"
    by (simp_all add: algebra_simps abs_le_iff)
  have "0 < x * (1 - unitRoundoff)"
    using pos unitRoundoff_bounds by (intro mult_pos_pos) simp_all
  with lo show "0 < nearest x" by linarith
qed

lemma quotient_rounded:
  assumes c: "1 / 2 ^ 500 \<le> c" "c \<le> 2 ^ 500" and p: "1 < p" "p \<le> 2 ^ 500"
  shows "num_divide (Finite c) (Finite p) = Finite (nearest (c / p))"
    and "c * (1 - unitRoundoff) \<le> nearest (c / p) * p"
    and "nearest (c / p) * p \<le> c * (1 + unitRoundoff)"
    and "1 / 2 ^ 1001 \<le> nearest (c / p)"
    and "nearest (c / p) \<le> 2 ^ 501"
proof -
  have cpos: "0 < c" using c(1) by (rule less_le_trans [rotated]) simp
  have ppos: "0 < p" using p(1) by simp
  have lo: "1 / 2 ^ 1000 \<le> c / p"
  proof -
    have "1 / 2 ^ 1000 = (1 / 2 ^ 500) / (2 ^ 500 :: real)" by simp
    also have "\<dots> \<le> c / 2 ^ 500" using c(1) by (intro divide_right_mono) simp_all
    also have "\<dots> \<le> c / p" using p ppos cpos by (intro divide_left_mono) simp_all
    finally show ?thesis .
  qed
  have hi: "c / p \<le> 2 ^ 500"
  proof -
    have "c / p \<le> c / 1" using p(1) cpos by (intro divide_left_mono) simp_all
    with c(2) show ?thesis by simp
  qed
  have normal: "1 / 2 ^ 1022 \<le> c / p"
    using lo by (rule order_trans [rotated]) simp
  note b = nearest_pos_bounds [OF normal]
  have "\<bar>c / p\<bar> \<le> 2 ^ 1023"
    using hi cpos ppos by (simp add: order_trans [where y = "2 ^ 500"])
  from double_finite [OF this]
  show "num_divide (Finite c) (Finite p) = Finite (nearest (c / p))"
    using ppos by simp
  have "c / p * (1 - unitRoundoff) * p \<le> nearest (c / p) * p"
    using b(1) ppos by (intro mult_right_mono) simp_all
  then show "c * (1 - unitRoundoff) \<le> nearest (c / p) * p"
    using ppos by simp
  have "nearest (c / p) * p \<le> c / p * (1 + unitRoundoff) * p"
    using b(2) ppos by (intro mult_right_mono) simp_all
  then show "nearest (c / p) * p \<le> c * (1 + unitRoundoff)"
    using ppos by simp
  have half: "1 / 2 \<le> 1 - unitRoundoff" by (simp add: unitRoundoff_def)
  have "1 / 2 ^ 1001 = (1 / 2 ^ 1000) * (1 / 2 :: real)" by simp
  also have "\<dots> \<le> (c / p) * (1 - unitRoundoff)"
    using lo half cpos ppos by (intro mult_mono) simp_all
  finally show "1 / 2 ^ 1001 \<le> nearest (c / p)" using b(1) by linarith
  have two: "1 + unitRoundoff \<le> 2" by (simp add: unitRoundoff_def)
  have "(c / p) * (1 + unitRoundoff) \<le> 2 ^ 500 * 2"
    using hi two cpos ppos unitRoundoff_bounds(1) by (intro mult_mono) simp_all
  with b(2) show "nearest (c / p) \<le> 2 ^ 501" by simp
qed

lemma product_rounded:
  assumes s: "1 / 2 ^ 1001 \<le> s" "s \<le> 2 ^ 501" and p: "1 < p" "p \<le> 2 ^ 500"
  shows "num_times (Finite p) (Finite s) = Finite (nearest (p * s))"
    and "\<bar>nearest (p * s) - s * p\<bar> \<le> unitRoundoff * (s * p)"
    and "\<bar>nearest (p * s)\<bar> \<le> 2 ^ 1002"
proof -
  have spos: "0 < s" using s(1) by (rule less_le_trans [rotated]) simp
  have ppos: "0 < p" using p(1) by simp
  have lo: "1 / 2 ^ 1001 \<le> p * s"
  proof -
    have "1 * (1 / 2 ^ 1001) \<le> p * s" using p(1) s(1) by (intro mult_mono) simp_all
    then show ?thesis by simp
  qed
  have hi: "p * s \<le> 2 ^ 1001"
  proof -
    have "p * s \<le> 2 ^ 500 * 2 ^ 501" using p s spos ppos by (intro mult_mono) simp_all
    then show ?thesis by simp
  qed
  have normal: "1 / 2 ^ 1022 \<le> p * s"
    using lo by (rule order_trans [rotated]) simp
  have pos: "0 < p * s" using spos ppos by simp
  have "\<bar>p * s\<bar> \<le> 2 ^ 1023"
    using hi pos by (simp add: order_trans [where y = "2 ^ 1001"])
  from double_finite [OF this]
  show "num_times (Finite p) (Finite s) = Finite (nearest (p * s))" by simp
  have normal': "1 / 2 ^ 1022 \<le> \<bar>p * s\<bar>" using normal pos by simp
  from nearest_error_normal [OF normal'] pos
  show "\<bar>nearest (p * s) - s * p\<bar> \<le> unitRoundoff * (s * p)"
    by (simp add: mult.commute)
  note b = nearest_pos_bounds [OF normal]
  have two: "1 + unitRoundoff \<le> 2" by (simp add: unitRoundoff_def)
  have "p * s * (1 + unitRoundoff) \<le> 2 ^ 1001 * 2"
    using hi two pos unitRoundoff_bounds(1) by (intro mult_mono) simp_all
  with b(2,3) show "\<bar>nearest (p * s)\<bar> \<le> 2 ^ 1002" by simp
qed

lemma half_difference:
  assumes a: "\<bar>a\<bar> \<le> 2 ^ 1003" and b: "\<bar>b\<bar> \<le> 2 ^ 1003"
  shows "num_divide (num_minus (Finite a) (Finite b)) (Finite 2)
           = Finite (nearest (nearest (a - b) / 2))"
    and "\<bar>2 * nearest (nearest (a - b) / 2) - (a - b)\<bar>
           \<le> 3 * unitRoundoff * \<bar>a - b\<bar> + 1 / 2 ^ 1073"
proof -
  let ?u = unitRoundoff
  define d where "d = a - b"
  define d1 where "d1 = nearest d"
  define d2 where "d2 = nearest (d1 / 2)"
  define eta :: real where "eta = 1 / 2 ^ 1075"
  have eta: "0 \<le> eta" "eta \<le> 1" "4 * eta = 1 / 2 ^ 1073"
    by (simp_all add: eta_def)
  have d: "\<bar>d\<bar> \<le> 2 ^ 1004"
  proof -
    have "\<bar>d\<bar> \<le> \<bar>a\<bar> + \<bar>b\<bar>" unfolding d_def by simp
    also have "\<dots> \<le> 2 ^ 1003 + 2 ^ 1003" using a b by (rule add_mono)
    finally show ?thesis by simp
  qed
  have e1: "\<bar>d1 - d\<bar> \<le> ?u * \<bar>d\<bar> + eta"
    unfolding d1_def eta_def by (rule nearest_error)
  have e2: "\<bar>d2 - d1 / 2\<bar> \<le> ?u * \<bar>d1 / 2\<bar> + eta"
    unfolding d2_def eta_def by (rule nearest_error)
  have t1: "\<bar>d1\<bar> \<le> (1 + ?u) * \<bar>d\<bar> + eta"
  proof -
    have "\<bar>d1\<bar> \<le> \<bar>d1 - d\<bar> + \<bar>d\<bar>" by simp
    with e1 show ?thesis by (simp add: algebra_simps)
  qed
  have d1: "\<bar>d1\<bar> \<le> 2 ^ 1006"
  proof -
    have "(1 + ?u) * \<bar>d\<bar> \<le> 2 * 2 ^ 1004"
      using d by (intro mult_mono) (simp_all add: unitRoundoff_def)
    then have "\<bar>d1\<bar> \<le> 2 * 2 ^ 1004 + 1" using t1 eta(2) by linarith
    also have "\<dots> \<le> 2 ^ 1006" by simp
    finally show ?thesis .
  qed
  have "\<bar>d\<bar> \<le> 2 ^ 1023"
    using d by (rule order_trans) simp
  then have f1: "double d = Finite d1"
    unfolding d1_def by (rule double_finite)
  have "\<bar>d1 / 2\<bar> \<le> \<bar>d1\<bar>" by simp
  also note d1
  also have "(2 :: real) ^ 1006 \<le> 2 ^ 1023" by simp
  finally have f2: "double (d1 / 2) = Finite d2"
    unfolding d2_def by (rule double_finite)
  show "num_divide (num_minus (Finite a) (Finite b)) (Finite 2)
           = Finite (nearest (nearest (a - b) / 2))"
    using f1 f2 by (simp add: d_def d1_def d2_def)
  have "\<bar>2 * d2 - d\<bar> = \<bar>2 * (d2 - d1 / 2) + (d1 - d)\<bar>"
    by (simp add: algebra_simps)
  also have "\<dots> \<le> \<bar>2 * (d2 - d1 / 2)\<bar> + \<bar>d1 - d\<bar>"
    by (rule abs_triangle_ineq)
  also have "\<dots> = 2 * \<bar>d2 - d1 / 2\<bar> + \<bar>d1 - d\<bar>"
    by (simp only: abs_mult abs_numeral)
  also have "\<dots> \<le> (?u * \<bar>d1\<bar> + 2 * eta) + (?u * \<bar>d\<bar> + eta)"
    using e1 e2 by simp
  also have "\<dots> \<le> (?u * ((1 + ?u) * \<bar>d\<bar> + eta) + 2 * eta) + (?u * \<bar>d\<bar> + eta)"
    using t1 unitRoundoff_bounds(1) by (simp add: mult_left_mono)
  also have "\<dots> = (2 * ?u + ?u * ?u) * \<bar>d\<bar> + (3 + ?u) * eta"
    by (simp add: algebra_simps)
  also have "\<dots> \<le> (3 * ?u) * \<bar>d\<bar> + 4 * eta"
  proof (intro add_mono mult_right_mono)
    have "?u * ?u \<le> ?u * 1"
      using unitRoundoff_bounds by (intro mult_left_mono) simp_all
    then show "2 * ?u + ?u * ?u \<le> 3 * ?u" by simp
    show "3 + ?u \<le> 4" using unitRoundoff_bounds(2) by simp
  qed (simp_all add: eta(1))
  finally show "\<bar>2 * nearest (nearest (a - b) / 2) - (a - b)\<bar>
           \<le> 3 * unitRoundoff * \<bar>a - b\<bar> + 1 / 2 ^ 1073"
    unfolding eta(3) by (simp add: d_def d1_def d2_def)
qed



text \<open>
  Claim C7, as amended. Let the sides of the page be finite numbers above 1 and at most
  \<open>2 ^ 500\<close>, and the sides of the container finite numbers between \<open>1 / 2 ^ 500\<close> and
  \<open>2 ^ 500\<close>. Then the effect stores finite numbers. The scale is
  \<open>min (nearest (cw / pw)) (nearest (ch / ph))\<close>, the smaller of the two quotients rounded,
  and it is positive. Up to rounding, the scaled page fits the container and touches it on one
  axis: with \<open>u = 1 / 2 ^ 53\<close>, \<open>scale * pw \<le> cw * (1 + u)\<close> and \<open>scale * ph \<le> ch * (1 + u)\<close>,
  and \<open>cw * (1 - u) \<le> scale * pw\<close> or \<open>ch * (1 - u) \<le> scale * ph\<close>. The computed scaled
  sizes are the products rounded, within \<open>u\<close> of them in proportion. Twice each offset is what
  the container has left beside the computed scaled size, within \<open>3 * u\<close> of it in proportion
  plus \<open>1 / 2 ^ 1073\<close>, the part of a rounding in the subnormal range.
\<close>

theorem C7_page_fit_rounded:
  assumes page: "width pdfLayout = Finite pw" "height pdfLayout = Finite ph"
    and container: "width containerLayout = Finite cw" "height containerLayout = Finite ch"
    and pw: "1 < pw" "pw \<le> 2 ^ 500" and ph: "1 < ph" "ph \<le> 2 ^ 500"
    and cw: "1 / 2 ^ 500 \<le> cw" "cw \<le> 2 ^ 500" and ch: "1 / 2 ^ 500 \<le> ch" "ch \<le> 2 ^ 500"
  shows "\<exists>s t l sw sh.
       pageFit pdfLayout containerLayout
         = Some \<lparr>pdfScale = Finite s, offsetTop = Finite t, offsetLeft = Finite l\<rparr>
     \<and> scaledPdfWidth pdfLayout containerLayout = Finite sw
     \<and> scaledPdfHeight pdfLayout containerLayout = Finite sh
     \<and> s = min (nearest (cw / pw)) (nearest (ch / ph))
     \<and> 0 < s
     \<and> s * pw \<le> cw * (1 + unitRoundoff)
     \<and> s * ph \<le> ch * (1 + unitRoundoff)
     \<and> (cw * (1 - unitRoundoff) \<le> s * pw \<or> ch * (1 - unitRoundoff) \<le> s * ph)
     \<and> \<bar>sw - s * pw\<bar> \<le> unitRoundoff * (s * pw)
     \<and> \<bar>sh - s * ph\<bar> \<le> unitRoundoff * (s * ph)
     \<and> \<bar>2 * t - (ch - sh)\<bar> \<le> 3 * unitRoundoff * \<bar>ch - sh\<bar> + 1 / 2 ^ 1073
     \<and> \<bar>2 * l - (cw - sw)\<bar> \<le> 3 * unitRoundoff * \<bar>cw - sw\<bar> + 1 / 2 ^ 1073"
proof -
  define a where "a = nearest (cw / pw)"
  define b where "b = nearest (ch / ph)"
  define s where "s = min a b"
  define sw where "sw = nearest (pw * s)"
  define sh where "sh = nearest (ph * s)"
  define t where "t = nearest (nearest (ch - sh) / 2)"
  define l where "l = nearest (nearest (cw - sw) / 2)"
  note wq = quotient_rounded [OF cw pw, folded a_def]
  note hq = quotient_rounded [OF ch ph, folded b_def]
  have ppos: "0 < pw" "0 < ph" using pw(1) ph(1) by simp_all
  have scale: "fitScale pdfLayout containerLayout = Finite s"
    unfolding fitScale_def Let_def page container wq(1) hq(1) by (simp add: s_def)
  have s_lo: "1 / 2 ^ 1001 \<le> s" unfolding s_def using wq(4) hq(4) by simp
  have s_hi: "s \<le> 2 ^ 501" unfolding s_def using wq(5) by simp
  have pos: "0 < s" using s_lo by (rule less_le_trans [rotated]) simp
  note wp = product_rounded [OF s_lo s_hi pw, folded sw_def]
  note hp = product_rounded [OF s_lo s_hi ph, folded sh_def]
  have swidth: "scaledPdfWidth pdfLayout containerLayout = Finite sw"
    unfolding scaledPdfWidth_def scale page wp(1) ..
  have sheight: "scaledPdfHeight pdfLayout containerLayout = Finite sh"
    unfolding scaledPdfHeight_def scale page hp(1) ..
  have upw: "s * pw \<le> cw * (1 + unitRoundoff)"
  proof -
    have "s * pw \<le> a * pw" unfolding s_def using ppos by (intro mult_right_mono) simp_all
    with wq(3) show ?thesis by linarith
  qed
  have uph: "s * ph \<le> ch * (1 + unitRoundoff)"
  proof -
    have "s * ph \<le> b * ph" unfolding s_def using ppos by (intro mult_right_mono) simp_all
    with hq(3) show ?thesis by linarith
  qed
  have tight: "cw * (1 - unitRoundoff) \<le> s * pw \<or> ch * (1 - unitRoundoff) \<le> s * ph"
  proof (cases "a \<le> b")
    case True
    then have "s = a" unfolding s_def by simp
    with wq(2) show ?thesis by simp
  next
    case False
    then have "s = b" unfolding s_def by simp
    with hq(2) show ?thesis by simp
  qed
  have big: "(2 :: real) ^ 500 \<le> 2 ^ 1003" "(2 :: real) ^ 1002 \<le> 2 ^ 1003" by simp_all
  have cwa: "\<bar>cw\<bar> \<le> 2 ^ 1003"
  proof -
    have "0 < cw" using cw(1) by (rule less_le_trans [rotated]) simp
    then have "\<bar>cw\<bar> \<le> 2 ^ 500" using cw(2) by simp
    then show ?thesis using big(1) by (rule order_trans)
  qed
  have cha: "\<bar>ch\<bar> \<le> 2 ^ 1003"
  proof -
    have "0 < ch" using ch(1) by (rule less_le_trans [rotated]) simp
    then have "\<bar>ch\<bar> \<le> 2 ^ 500" using ch(2) by simp
    then show ?thesis using big(1) by (rule order_trans)
  qed
  have swa: "\<bar>sw\<bar> \<le> 2 ^ 1003" using wp(3) big(2) by (rule order_trans)
  have sha: "\<bar>sh\<bar> \<le> 2 ^ 1003" using hp(3) big(2) by (rule order_trans)
  note top = half_difference [OF cha sha, folded t_def]
  note left = half_difference [OF cwa swa, folded l_def]
  have guard: "num_greater (Finite pw) (Finite 1) \<and> num_greater (Finite ph) (Finite 1)
      \<and> num_greater (Finite cw) (Finite 0) \<and> num_greater (Finite ch) (Finite 0)"
  proof -
    have "0 < cw" using cw(1) by (rule less_le_trans [rotated]) simp
    moreover have "0 < ch" using ch(1) by (rule less_le_trans [rotated]) simp
    ultimately show ?thesis using pw(1) ph(1) by simp
  qed
  have fit: "pageFit pdfLayout containerLayout
      = Some \<lparr>pdfScale = Finite s, offsetTop = Finite t, offsetLeft = Finite l\<rparr>"
    unfolding pageFit_def Let_def swidth sheight scale page container top(1) left(1)
    using guard by simp
  have s: "s = min (nearest (cw / pw)) (nearest (ch / ph))"
    by (simp add: s_def a_def b_def)
  from fit swidth sheight s pos upw uph tight wp(2) hp(2) top(2) left(2)
  show ?thesis by blast
qed


text \<open>The values computed for a page of 595 by 842 in a container of 400 by 600.\<close>

lemma binade_eq:
  "x \<noteq> 0 \<Longrightarrow> 2 powr of_int k \<le> \<bar>x\<bar> \<Longrightarrow> \<bar>x\<bar> < 2 powr of_int (k + 1) \<Longrightarrow> binade x = k"
  unfolding binade_def by (subst floor_log_eq_powr_iff) simp_all

lemma nearest_in_binade:
  "x \<noteq> 0 \<Longrightarrow> binade x = k \<Longrightarrow> - 1022 \<le> k \<Longrightarrow>
   nearest x = of_int (roundTiesToEven (x / 2 powr of_int (k - 52))) * 2 powr of_int (k - 52)"
  by (simp add: nearest_def quantum_def)

lemma nearest_subnormal:
  assumes "x \<noteq> 0" and "\<bar>x\<bar> < 1 / 2 ^ 1022"
  shows "nearest x = of_int (roundTiesToEven (x * 2 ^ 1074)) / 2 ^ 1074"
proof -
  have q: "quantum x = - 1074"
    using binade_subnormal [OF assms] by (simp add: quantum_def)
  have p: "2 powr of_int (- 1074) = 1 / (2 ^ 1074 :: real)"
    by (simp add: powr_minus divide_simps)
  show ?thesis using assms(1) unfolding nearest_def q p by simp
qed

lemma double_value: "nearest x = v \<Longrightarrow> \<bar>v\<bar> < 2 ^ 1024 \<Longrightarrow> double x = Finite v"
  by (simp add: double_def Let_def abs_less_iff)

lemma fitScale_a4_phone: "fitScale a4 phone = Finite (3027630001593611 / 4503599627370496)"
proof -
  have bw: "binade (400 / 595) = - 1"
    by (rule binade_eq) (simp_all add: powr_minus)
  have bh: "binade (600 / 842) = - 1"
    by (rule binade_eq) (simp_all add: powr_minus)
  have w: "nearest (400 / 595) = 3027630001593611 / 4503599627370496"
    by (subst nearest_in_binade [OF _ bw]) (simp_all add: powr_minus roundTiesToEven_def)
  have h: "nearest (600 / 842) = 6418431772974579 / 9007199254740992"
    by (subst nearest_in_binade [OF _ bh]) (simp_all add: powr_minus roundTiesToEven_def)
  have dw: "double (400 / 595) = Finite (3027630001593611 / 4503599627370496)"
    by (rule double_value [OF w]) simp
  have dh: "double (600 / 842) = Finite (6418431772974579 / 9007199254740992)"
    by (rule double_value [OF h]) simp
  from dw dh show ?thesis
    by (simp add: fitScale_def a4_def phone_def)
qed

lemma scaledPdfWidth_a4_phone: "scaledPdfWidth a4 phone = Finite (400 + 1 / 2 ^ 44)"
proof -
  have b: "binade (595 * (3027630001593611 / 4503599627370496)) = 8"
    by (rule binade_eq) simp_all
  have n: "nearest (595 * (3027630001593611 / 4503599627370496)) = 400 + 1 / 2 ^ 44"
    by (subst nearest_in_binade [OF _ b]) (simp_all add: powr_minus roundTiesToEven_def)
  have d: "double (595 * (3027630001593611 / 4503599627370496)) = Finite (400 + 1 / 2 ^ 44)"
    by (rule double_value [OF n]) simp
  from d show ?thesis
    unfolding scaledPdfWidth_def fitScale_a4_phone by (simp add: a4_def)
qed

lemma scaledPdfHeight_a4_phone:
  "scaledPdfHeight a4 phone = Finite (4979032151058243 / 8796093022208)"
proof -
  have b: "binade (842 * (3027630001593611 / 4503599627370496)) = 9"
    by (rule binade_eq) simp_all
  have n: "nearest (842 * (3027630001593611 / 4503599627370496))
      = 4979032151058243 / 8796093022208"
    by (subst nearest_in_binade [OF _ b]) (simp_all add: powr_minus roundTiesToEven_def)
  have d: "double (842 * (3027630001593611 / 4503599627370496))
      = Finite (4979032151058243 / 8796093022208)"
    by (rule double_value [OF n]) simp
  from d show ?thesis
    unfolding scaledPdfHeight_def fitScale_a4_phone by (simp add: a4_def)
qed

lemma offsetTop_a4_phone:
  "num_divide (num_minus (Finite 600) (Finite (4979032151058243 / 8796093022208))) (Finite 2)
     = Finite (298623662266557 / 17592186044416)"
proof -
  have b1: "binade (600 - 4979032151058243 / 8796093022208) = 5"
    by (rule binade_eq) simp_all
  have n1: "nearest (600 - 4979032151058243 / 8796093022208)
      = 298623662266557 / 8796093022208"
    by (subst nearest_in_binade [OF _ b1]) (simp_all add: powr_minus roundTiesToEven_def)
  have d1: "double (600 - 4979032151058243 / 8796093022208)
      = Finite (298623662266557 / 8796093022208)"
    by (rule double_value [OF n1]) simp
  have b2: "binade (298623662266557 / 8796093022208 / 2) = 4"
    by (rule binade_eq) simp_all
  have n2: "nearest (298623662266557 / 8796093022208 / 2) = 298623662266557 / 17592186044416"
    by (subst nearest_in_binade [OF _ b2]) (simp_all add: powr_minus roundTiesToEven_def)
  have d2: "double (298623662266557 / 8796093022208 / 2)
      = Finite (298623662266557 / 17592186044416)"
    by (rule double_value [OF n2]) simp
  have two: "(2 :: real) \<noteq> 0" by simp
  show ?thesis
    unfolding num_minus.simps d1 num_divide.simps if_not_P [OF two] d2 ..
qed

lemma offsetLeft_a4_phone:
  "num_divide (num_minus (Finite 400) (Finite (400 + 1 / 2 ^ 44))) (Finite 2)
     = Finite (- (1 / 2 ^ 45))"
proof -
  have b1: "binade (400 - (400 + 1 / 2 ^ 44)) = - 44"
    by (rule binade_eq) (simp_all add: powr_minus)
  have n1: "nearest (400 - (400 + 1 / 2 ^ 44)) = - (1 / 2 ^ 44)"
    by (subst nearest_in_binade [OF _ b1]) (simp_all add: powr_minus roundTiesToEven_def)
  have d1: "double (400 - (400 + 1 / 2 ^ 44)) = Finite (- (1 / 2 ^ 44))"
    by (rule double_value [OF n1]) simp
  have b2: "binade (- (1 / 2 ^ 44) / 2) = - 45"
    by (rule binade_eq) (simp_all add: powr_minus)
  have n2: "nearest (- (1 / 2 ^ 44) / 2) = - (1 / 2 ^ 45)"
    by (subst nearest_in_binade [OF _ b2]) (simp_all add: powr_minus roundTiesToEven_def)
  have d2: "double (- (1 / 2 ^ 44) / 2) = Finite (- (1 / 2 ^ 45))"
    by (rule double_value [OF n2]) simp
  have two: "(2 :: real) \<noteq> 0" by simp
  show ?thesis
    unfolding num_minus.simps d1 num_divide.simps if_not_P [OF two] d2 ..
qed

text \<open>Claim C7, counterexample: a page of 595 by 842 in a container of 400 by 600. The scale
  is the quotient 400 / 595 rounded, which is above the exact quotient: the scaled width exceeds
  400, as an exact product and as computed, the scaled height is below 600, and the left offset
  is negative.\<close>

theorem C7_counterexample:
  "pageFit a4 phone
     = Some \<lparr>pdfScale = Finite (3027630001593611 / 4503599627370496),
             offsetTop = Finite (298623662266557 / 17592186044416),
             offsetLeft = Finite (- (1 / 2 ^ 45))\<rparr>
   \<and> width a4 = Finite 595 \<and> width phone = Finite 400
   \<and> (3027630001593611 / 4503599627370496) * 595 > (400 :: real)
   \<and> height a4 = Finite 842 \<and> height phone = Finite 600
   \<and> (3027630001593611 / 4503599627370496) * 842 < (600 :: real)
   \<and> scaledPdfWidth a4 phone = Finite (400 + 1 / 2 ^ 44)"
proof -
  have guard: "num_greater (width a4) (Finite 1) \<and> num_greater (height a4) (Finite 1)
      \<and> num_greater (width phone) (Finite 0) \<and> num_greater (height phone) (Finite 0)"
    by (simp add: a4_def phone_def)
  have sizes: "height phone = Finite 600" "width phone = Finite 400"
    by (simp_all add: phone_def)
  have fit: "pageFit a4 phone
     = Some \<lparr>pdfScale = Finite (3027630001593611 / 4503599627370496),
             offsetTop = Finite (298623662266557 / 17592186044416),
             offsetLeft = Finite (- (1 / 2 ^ 45))\<rparr>"
    unfolding pageFit_def Let_def fitScale_a4_phone scaledPdfWidth_a4_phone
      scaledPdfHeight_a4_phone sizes offsetTop_a4_phone offsetLeft_a4_phone
    using guard sizes by simp
  show ?thesis
    using fit scaledPdfWidth_a4_phone by (simp add: a4_def phone_def)
qed

theorem C7_witness:
  "\<exists>s t l. pageFit a4 phone
        = Some \<lparr>pdfScale = Finite s, offsetTop = Finite t, offsetLeft = Finite l\<rparr>
     \<and> 0 < s
     \<and> s * 595 \<le> 400 * (1 + unitRoundoff)
     \<and> s * 842 \<le> 600 * (1 + unitRoundoff)"
proof -
  have sizes: "width a4 = Finite 595" "height a4 = Finite 842"
    "width phone = Finite 400" "height phone = Finite 600"
    by (simp_all add: a4_def phone_def)
  have bounds: "(1 :: real) < 595" "(595 :: real) \<le> 2 ^ 500" "(1 :: real) < 842"
    "(842 :: real) \<le> 2 ^ 500" "1 / 2 ^ 500 \<le> (400 :: real)" "(400 :: real) \<le> 2 ^ 500"
    "1 / 2 ^ 500 \<le> (600 :: real)" "(600 :: real) \<le> 2 ^ 500"
    by simp_all
  from C7_page_fit_rounded [OF sizes bounds] show ?thesis
    by blast
qed

text \<open>
  Outside the bounds of the amended claim the scale need not be positive and the stored numbers
  need not be finite. A container whose sides are the smallest positive double, with a page of
  3 by 3: the quotient underflows and the scale is 0. A container whose sides are the largest
  double, with the same page: the quotient is rounded upwards, the product overflows, the
  computed scaled sizes are \<open>Infinity\<close> and both offsets \<open>-Infinity\<close>.
\<close>

lemma pageFit_underflow:
  "pageFit (square 3) (square (1 / 2 ^ 1074))
     = Some \<lparr>pdfScale = Finite 0, offsetTop = Finite 0, offsetLeft = Finite 0\<rparr>"
proof -
  have n: "nearest (1 / 2 ^ 1074 / 3) = 0"
    by (subst nearest_subnormal) (simp_all add: roundTiesToEven_def)
  have q: "double (1 / 2 ^ 1074 / 3) = Finite 0"
    by (rule double_value [OF n]) simp
  have z: "double 0 = Finite 0"
    by (rule double_value) (simp_all add: nearest_def)
  have n1: "nearest (1 / 2 ^ 1074) = 1 / 2 ^ 1074"
    by (subst nearest_subnormal) (simp_all add: roundTiesToEven_def)
  have d1: "double (1 / 2 ^ 1074) = Finite (1 / 2 ^ 1074)"
    by (rule double_value [OF n1]) simp
  have n2: "nearest (1 / 2 ^ 1074 / 2) = 0"
    by (subst nearest_subnormal) (simp_all add: roundTiesToEven_def)
  have d2: "double (1 / 2 ^ 1074 / 2) = Finite 0"
    by (rule double_value [OF n2]) simp
  have scale: "fitScale (square 3) (square (1 / 2 ^ 1074)) = Finite 0"
    using q by (simp add: fitScale_def square_def)
  have sw: "scaledPdfWidth (square 3) (square (1 / 2 ^ 1074)) = Finite 0"
    unfolding scaledPdfWidth_def scale using z by (simp add: square_def)
  have sh: "scaledPdfHeight (square 3) (square (1 / 2 ^ 1074)) = Finite 0"
    unfolding scaledPdfHeight_def scale using z by (simp add: square_def)
  have off: "num_divide (num_minus (Finite (1 / 2 ^ 1074)) (Finite 0)) (Finite 2) = Finite 0"
    using d1 d2 by simp
  have sizes: "width (square (1 / 2 ^ 1074)) = Finite (1 / 2 ^ 1074)"
    "height (square (1 / 2 ^ 1074)) = Finite (1 / 2 ^ 1074)"
    by (simp_all add: square_def)
  have guard: "num_greater (width (square 3)) (Finite 1)
      \<and> num_greater (height (square 3)) (Finite 1)
      \<and> num_greater (Finite (1 / 2 ^ 1074)) (Finite 0)"
    by (simp add: square_def)
  show ?thesis
    unfolding pageFit_def Let_def scale sw sh sizes off
    using guard by simp
qed


lemma pageFit_overflow:
  "pageFit (square 3) (square (2 ^ 1024 - 2 ^ 971))
     = Some \<lparr>pdfScale = Finite (6004799503160661 * 2 ^ 970),
             offsetTop = MinusInfinity, offsetLeft = MinusInfinity\<rparr>"
proof -
  have b: "binade ((2 ^ 1024 - 2 ^ 971) / 3) = 1022"
    by (rule binade_eq) simp_all
  have n: "nearest ((2 ^ 1024 - 2 ^ 971) / 3) = 6004799503160661 * 2 ^ 970"
    by (subst nearest_in_binade [OF _ b]) (simp_all add: roundTiesToEven_def)
  have q: "double ((2 ^ 1024 - 2 ^ 971) / 3) = Finite (6004799503160661 * 2 ^ 970)"
    by (rule double_value [OF n]) simp
  have b1: "binade (3 * (6004799503160661 * 2 ^ 970)) = 1023"
    by (rule binade_eq) simp_all
  have n1: "nearest (3 * (6004799503160661 * 2 ^ 970)) = 2 ^ 1024"
    by (subst nearest_in_binade [OF _ b1]) (simp_all add: roundTiesToEven_def)
  have p: "double (3 * (6004799503160661 * 2 ^ 970)) = PlusInfinity"
    unfolding double_def Let_def n1 by simp
  have scale: "fitScale (square 3) (square (2 ^ 1024 - 2 ^ 971))
      = Finite (6004799503160661 * 2 ^ 970)"
    using q by (simp add: fitScale_def square_def)
  have sw: "scaledPdfWidth (square 3) (square (2 ^ 1024 - 2 ^ 971)) = PlusInfinity"
    unfolding scaledPdfWidth_def scale using p by (simp add: square_def)
  have sh: "scaledPdfHeight (square 3) (square (2 ^ 1024 - 2 ^ 971)) = PlusInfinity"
    unfolding scaledPdfHeight_def scale using p by (simp add: square_def)
  have sizes: "width (square (2 ^ 1024 - 2 ^ 971)) = Finite (2 ^ 1024 - 2 ^ 971)"
    "height (square (2 ^ 1024 - 2 ^ 971)) = Finite (2 ^ 1024 - 2 ^ 971)"
    by (simp_all add: square_def)
  have guard: "num_greater (width (square 3)) (Finite 1)
      \<and> num_greater (height (square 3)) (Finite 1)
      \<and> num_greater (Finite (2 ^ 1024 - 2 ^ 971)) (Finite 0)"
    by (simp add: square_def)
  show ?thesis
    unfolding pageFit_def Let_def scale sw sh sizes
    using guard by simp
qed

end
